theory Spec2Isabelle
  imports Complex_Main "HOL-Library.Sublist"
begin

section \<open>Strings\<close>

text \<open>
  A Python \<open>str\<close> is a sequence of Unicode code points, and the collector compares
  page text with Korean literals and counts characters with \<open>len\<close>. A string is
  therefore a list of code points; \<open>ascii\<close> writes an ASCII literal.
\<close>

type_synonym ustring = "nat list"

definition ascii :: "string \<Rightarrow> ustring" where
  "ascii s = map of_char s"

text \<open>The code points that \<open>str.strip()\<close> removes (those with \<open>str.isspace\<close>).\<close>

definition isspace :: "nat \<Rightarrow> bool" where
  "isspace c =
     ((9 \<le> c \<and> c \<le> 13) \<or> (28 \<le> c \<and> c \<le> 32) \<or> c = 133 \<or> c = 160 \<or> c = 5760 \<or>
      (8192 \<le> c \<and> c \<le> 8202) \<or> c = 8232 \<or> c = 8233 \<or> c = 8239 \<or> c = 8287 \<or>
      c = 12288)"

definition strip :: "ustring \<Rightarrow> ustring" where
  "strip s = rev (dropWhile isspace (rev (dropWhile isspace s)))"

text \<open>
  \<open>str.lower()\<close>. The runtime goes through the string and replaces the code point at
  each position by its lower-case form: one code point or several, which for a few
  letters depends on the neighbouring code points. The table that gives this form
  belongs to the runtime, not to the repository; it is a parameter of the model, a
  function of the string and the position.
\<close>

type_synonym case_table = "ustring \<Rightarrow> nat \<Rightarrow> ustring"

definition lower :: "case_table \<Rightarrow> ustring \<Rightarrow> ustring" where
  "lower tbl s = concat (map (tbl s) [0..<length s])"

text \<open>\<open>sub in s\<close>: some suffix of \<open>s\<close> starts with \<open>sub\<close>.\<close>

fun contains :: "ustring \<Rightarrow> ustring \<Rightarrow> bool" where
  "contains sub [] = (sub = [])"
| "contains sub (c # s) = (prefix sub (c # s) \<or> contains sub s)"

text \<open>\<open>s.rfind(sub)\<close>: the highest index at which \<open>sub\<close> starts, if any.\<close>

fun rfind :: "ustring \<Rightarrow> ustring \<Rightarrow> nat option" where
  "rfind sub [] = (if sub = [] then Some 0 else None)"
| "rfind sub (c # s) =
     (case rfind sub s of
        Some i \<Rightarrow> Some (Suc i)
      | None \<Rightarrow> if prefix sub (c # s) then Some 0 else None)"

text \<open>
  \<open>s.rsplit(sep, 1)[0]\<close>: the part before the last occurrence of \<open>sep\<close>, the whole
  string when \<open>sep\<close> does not occur.
\<close>

definition rsplit1_head :: "ustring \<Rightarrow> ustring \<Rightarrow> ustring" where
  "rsplit1_head sep s = (case rfind sep s of None \<Rightarrow> s | Some i \<Rightarrow> take i s)"

text \<open>\<open>sep.join(parts)\<close>.\<close>

fun join :: "ustring \<Rightarrow> ustring list \<Rightarrow> ustring" where
  "join sep [] = []"
| "join sep [x] = x"
| "join sep (x # y # ys) = x @ sep @ join sep (y # ys)"

text \<open>A string is trimmed when \<open>strip\<close> leaves it as it is.\<close>

definition trimmed :: "ustring \<Rightarrow> bool" where
  "trimmed s = (strip s = s)"

section \<open>Articles\<close>

text \<open>The dictionary built for every collected item; its seven keys are fixed.\<close>

record article =
  date :: ustring
  source :: ustring
  query :: ustring
  title :: ustring
  description :: ustring
  link :: ustring
  published :: ustring

section \<open>Feed title cleanup\<close>

definition title_sep :: ustring where
  "title_sep = ascii '' - ''"

text \<open>
  \<open>title = raw_title.rsplit(" - ", 1)[0] if " - " in raw_title else raw_title\<close>
\<close>

definition title_cleanup :: "ustring \<Rightarrow> ustring" where
  "title_cleanup raw_title =
     (if contains title_sep raw_title then rsplit1_head title_sep raw_title else raw_title)"

section \<open>Deduplication\<close>

text \<open>\<open>key = article["title"].strip().lower()\<close>\<close>

definition dedup_key :: "case_table \<Rightarrow> article \<Rightarrow> ustring" where
  "dedup_key tbl a = lower tbl (strip (title a))"

text \<open>
  The loop over \<open>all_raw\<close> in \<open>collect_all_news\<close>, with its two variables \<open>seen\<close> and
  \<open>deduped\<close>.
\<close>

fun dedup_loop ::
  "case_table \<Rightarrow> article list \<Rightarrow> ustring set \<Rightarrow> article list \<Rightarrow> article list" where
  "dedup_loop tbl [] seen deduped = deduped"
| "dedup_loop tbl (a # all_raw) seen deduped =
     (let key = dedup_key tbl a in
      if key \<noteq> [] \<and> key \<notin> seen
      then dedup_loop tbl all_raw (insert key seen) (deduped @ [a])
      else dedup_loop tbl all_raw seen deduped)"

definition dedup :: "case_table \<Rightarrow> article list \<Rightarrow> article list" where
  "dedup tbl all_raw = dedup_loop tbl all_raw {} []"

text \<open>
  What the specification asks of the deduplication step, in its own words: the records
  at the positions whose key is not empty and has not occurred at an earlier position,
  in the order of the positions.
\<close>

definition first_occurrences :: "case_table \<Rightarrow> article list \<Rightarrow> article list" where
  "first_occurrences tbl xs =
     map (\<lambda>i. xs ! i)
       (filter (\<lambda>i. dedup_key tbl (xs ! i) \<noteq> [] \<and>
                    dedup_key tbl (xs ! i) \<notin> set (map (dedup_key tbl) (take i xs)))
          [0..<length xs])"

section \<open>Configuration\<close>

text \<open>
  The constants the collector imports from the configuration module, which is not among
  the sources, are parameters of the model. The two URL templates are kept abstract in
  the type \<open>url\<close> below.
\<close>

record config =
  MAX_RETRIES :: nat
  MAX_ARTICLES_PER_QUERY :: nat
  MAX_PAGES_PER_QUERY :: nat

section \<open>Documents\<close>

text \<open>
  The markup libraries are outside the repository. A document is represented by what
  the selectors of the parser return on it: an element by the value of its \<open>href\<close>
  attribute, if it has one, and its text strings in document order.
\<close>

record tag =
  tag_href :: "ustring option"
  tag_strings :: "ustring list"

text \<open>
  \<open>get_text(sep, strip=True)\<close>: every text string is stripped, the empty ones are
  left out, the rest are joined.
\<close>

definition get_text :: "ustring \<Rightarrow> ustring list \<Rightarrow> ustring" where
  "get_text sep ss = join sep (filter (\<lambda>s. s \<noteq> []) (map strip ss))"

text \<open>\<open>t.get("href", "")\<close>\<close>

definition get_href :: "tag \<Rightarrow> ustring" where
  "get_href t = (case tag_href t of None \<Rightarrow> [] | Some h \<Rightarrow> h)"

text \<open>
  A container of the current layout: \<open>card.find_all("a", href=True)\<close> and
  \<open>card.select("span.sds-comps-profile-info-subtext")\<close>.
\<close>

record card =
  card_anchors :: "tag list"
  card_subtexts :: "tag list"

text \<open>
  An item of the legacy layout: the result of each \<open>select_one\<close> the parser calls on
  it, in the order of the calls.
\<close>

record legacy_item =
  li_news_tit :: "tag option"
  li_dsc_a :: "tag option"
  li_dsc_wrap :: "tag option"
  li_dsc_txt :: "tag option"
  li_info :: "tag option"
  li_info_group :: "tag option"

text \<open>
  A parsed page: \<open>select("div.YWTMk0ahJUsxq4uCx9gX")\<close>,
  \<open>select("ul.list_news > li.bx")\<close> and \<open>select("div.news_wrap")\<close>.
\<close>

record soup =
  sel_cards :: "card list"
  sel_list_news :: "legacy_item list"
  sel_news_wrap :: "legacy_item list"

text \<open>\<open>x or y\<close> on the results of \<open>select_one\<close>: an element is always true.\<close>

definition or_else :: "'a option \<Rightarrow> 'a option \<Rightarrow> 'a option" where
  "or_else x y = (case x of Some t \<Rightarrow> Some t | None \<Rightarrow> y)"

section \<open>The page parser\<close>

definition naver :: ustring where
  "naver = ascii ''naver''"

definition google :: ustring where
  "google = ascii ''google''"

definition is_article_link :: "tag \<Rightarrow> bool" where
  "is_article_link a =
     (contains (ascii ''articleView'') (get_href a) \<or>
      contains (ascii ''n.news.naver.com'') (get_href a))"

definition time_keywords :: "ustring list" where
  "time_keywords =
     [[0xBD84, 0x20, 0xC804], [0xC2DC, 0xAC04, 0x20, 0xC804], [0xC77C, 0x20, 0xC804],
      [0xC5B4, 0xC81C], [0xBC29, 0xAE08]]"

definition UI_TITLES :: "ustring list" where
  "UI_TITLES =
     [[0xB124, 0xC774, 0xBC84, 0xB274, 0xC2A4],
      [0x4B, 0x65, 0x65, 0x70, 0xC5D0, 0x20, 0xC800, 0xC7A5],
      [0xB274, 0xC2A4], []]"

text \<open>The loop over the sub-text labels of a card, which stops at the first match.\<close>

fun find_published :: "ustring \<Rightarrow> tag list \<Rightarrow> ustring" where
  "find_published published' [] = published'"
| "find_published published' (sp # spans) =
     (let txt = get_text [] (tag_strings sp) in
      if list_ex (\<lambda>k. contains k txt) time_keywords then txt
      else find_published published' spans)"

text \<open>The body of the loop over the cards; \<open>None\<close> is \<open>continue\<close>.\<close>

definition parse_card :: "ustring \<Rightarrow> ustring \<Rightarrow> card \<Rightarrow> article option" where
  "parse_card query' today c =
     (let article_links = filter is_article_link (card_anchors c) in
      if length article_links < 1 then None
      else
        let title_tag = article_links ! 0;
            title' = get_text [] (tag_strings title_tag);
            link' = get_href title_tag;
            desc = (if length article_links \<ge> 2
                    then get_text [] (tag_strings (article_links ! 1)) else []);
            published' = find_published today (card_subtexts c)
        in if length title' < 5 \<or> title' \<in> set UI_TITLES then None
           else if title' \<noteq> [] then
             Some \<lparr>date = today, source = naver, query = query', title = title',
                   description = desc, link = link', published = published'\<rparr>
           else None)"

fun parse_cards :: "ustring \<Rightarrow> ustring \<Rightarrow> card list \<Rightarrow> article list \<Rightarrow> article list" where
  "parse_cards query' today [] items = items"
| "parse_cards query' today (c # news_list) items =
     (case parse_card query' today c of
        None \<Rightarrow> parse_cards query' today news_list items
      | Some a \<Rightarrow> parse_cards query' today news_list (items @ [a]))"

text \<open>The body of the loop over the legacy items.\<close>

definition parse_legacy_item :: "ustring \<Rightarrow> ustring \<Rightarrow> legacy_item \<Rightarrow> article option" where
  "parse_legacy_item query' today li =
     (case li_news_tit li of
        None \<Rightarrow> None
      | Some title_tag \<Rightarrow>
          let title' = get_text [] (tag_strings title_tag);
              link' = get_href title_tag;
              desc_tag = or_else (li_dsc_a li) (or_else (li_dsc_wrap li) (li_dsc_txt li));
              desc = (case desc_tag of Some d \<Rightarrow> get_text [] (tag_strings d) | None \<Rightarrow> []);
              date_tag = or_else (li_info li) (li_info_group li);
              published' =
                (case date_tag of Some d \<Rightarrow> get_text [] (tag_strings d) | None \<Rightarrow> today)
          in Some \<lparr>date = today, source = naver, query = query', title = title',
                   description = desc, link = link', published = published'\<rparr>)"

fun parse_legacy :: "ustring \<Rightarrow> ustring \<Rightarrow> legacy_item list \<Rightarrow> article list \<Rightarrow> article list" where
  "parse_legacy query' today [] items = items"
| "parse_legacy query' today (li # news_list_old) items =
     (case parse_legacy_item query' today li of
        None \<Rightarrow> parse_legacy query' today news_list_old items
      | Some a \<Rightarrow> parse_legacy query' today news_list_old (items @ [a]))"

definition parse_naver_page :: "soup \<Rightarrow> ustring \<Rightarrow> ustring \<Rightarrow> article list" where
  "parse_naver_page html query' today =
     (let news_list = sel_cards html in
      if news_list \<noteq> [] then parse_cards query' today news_list []
      else
        let news_list_old =
              (if sel_list_news html \<noteq> [] then sel_list_news html else sel_news_wrap html)
        in parse_legacy query' today news_list_old [])"

section \<open>The environment\<close>

text \<open>
  A request goes to the address built from a template of the configuration, the query
  and, for the result pages, the offset \<open>start\<close>.
\<close>

datatype url = NaverUrl ustring nat | GoogleUrl ustring

text \<open>
  What one \<open>requests.get\<close> followed by \<open>raise_for_status\<close> does: it gives a response,
  whose text is represented by the parsed page, or raises an exception of the class
  \<open>RequestException\<close> (transport failure, status outside 2xx), or raises something
  else, which the handler of \<open>_get\<close> does not catch.
\<close>

datatype get_outcome = Response soup | RequestException | OtherError

text \<open>
  A feed entry: the optional fields read with \<open>entry.get\<close>, the summary by the text
  strings of its markup.
\<close>

record entry =
  e_title :: "ustring option"
  e_summary :: "ustring list"
  e_link :: "ustring option"
  e_published :: "ustring option"

datatype feed_outcome = Feed "entry list" | FeedException

text \<open>
  The world answers the n-th request, the n-th feed retrieval and the n-th draw of
  \<open>random.uniform\<close>, tells the date at the start of each collector, and holds the
  lower-case table of the runtime.
\<close>

record world =
  http :: "nat \<Rightarrow> url \<Rightarrow> get_outcome"
  feedparser :: "nat \<Rightarrow> url \<Rightarrow> feed_outcome"
  uniform :: "nat \<Rightarrow> real"
  today_naver :: ustring
  today_google :: ustring
  tolower :: case_table

datatype event = Get url | FeedParse url | SleepBackoff nat | SleepPolite real

record state =
  n_get :: nat
  n_feed :: nat
  n_rand :: nat
  trace :: "event list"

datatype exn = Uncaught

section \<open>Requests\<close>

text \<open>\<open>time.sleep(random.uniform(*REQUEST_DELAY))\<close>\<close>

definition sleep :: "world \<Rightarrow> state \<Rightarrow> state" where
  "sleep w st =
     st\<lparr>n_rand := Suc (n_rand st), trace := trace st @ [SleepPolite (uniform w (n_rand st))]\<rparr>"

text \<open>The loop of \<open>_get\<close> over \<open>range(1, MAX_RETRIES + 1)\<close>.\<close>

fun get_attempts ::
  "config \<Rightarrow> world \<Rightarrow> url \<Rightarrow> nat list \<Rightarrow> state \<Rightarrow> (exn + soup option) \<times> state" where
  "get_attempts cfg w u [] st = (Inr None, st)"
| "get_attempts cfg w u (attempt # attempts) st =
     (let st1 = st\<lparr>n_get := Suc (n_get st), trace := trace st @ [Get u]\<rparr> in
      case http w (n_get st) u of
        Response resp \<Rightarrow> (Inr (Some resp), st1)
      | RequestException \<Rightarrow>
          get_attempts cfg w u attempts
            (if attempt < MAX_RETRIES cfg
             then st1\<lparr>trace := trace st1 @ [SleepBackoff (2 ^ attempt)]\<rparr> else st1)
      | OtherError \<Rightarrow> (Inl Uncaught, st1))"

definition get :: "config \<Rightarrow> world \<Rightarrow> url \<Rightarrow> state \<Rightarrow> (exn + soup option) \<times> state" where
  "get cfg w u st = get_attempts cfg w u [1..<MAX_RETRIES cfg + 1] st"

section \<open>The feed collector\<close>

definition google_article :: "ustring \<Rightarrow> ustring \<Rightarrow> entry \<Rightarrow> article" where
  "google_article today query' e =
     (let raw_title = strip (case e_title e of None \<Rightarrow> [] | Some t \<Rightarrow> t);
          title' = title_cleanup raw_title;
          desc = get_text (ascii '' '') (e_summary e);
          published' = (case e_published e of None \<Rightarrow> today | Some p \<Rightarrow> p)
      in \<lparr>date = today, source = google, query = query', title = title',
          description = desc, link = (case e_link e of None \<Rightarrow> [] | Some l \<Rightarrow> l),
          published = published'\<rparr>)"

text \<open>The loop over \<open>feed.entries\<close>, which breaks when the count reaches the cap.\<close>

fun google_entries ::
  "config \<Rightarrow> ustring \<Rightarrow> ustring \<Rightarrow> entry list \<Rightarrow> article list \<Rightarrow> nat \<Rightarrow> article list" where
  "google_entries cfg today query' [] articles count = articles"
| "google_entries cfg today query' (e # entries) articles count =
     (if count \<ge> MAX_ARTICLES_PER_QUERY cfg then articles
      else google_entries cfg today query' entries
             (articles @ [google_article today query' e]) (count + 1))"

text \<open>The loop over the queries; an exception of the feed parser skips the query.\<close>

fun google_queries ::
  "config \<Rightarrow> world \<Rightarrow> ustring \<Rightarrow> ustring list \<Rightarrow> article list \<Rightarrow> state \<Rightarrow>
   article list \<times> state" where
  "google_queries cfg w today [] articles st = (articles, st)"
| "google_queries cfg w today (query' # queries) articles st =
     (let u = GoogleUrl query';
          st1 = st\<lparr>n_feed := Suc (n_feed st), trace := trace st @ [FeedParse u]\<rparr> in
      case feedparser w (n_feed st) u of
        FeedException \<Rightarrow> google_queries cfg w today queries articles (sleep w st1)
      | Feed entries \<Rightarrow>
          google_queries cfg w today queries
            (google_entries cfg today query' entries articles 0) (sleep w st1))"

definition collect_google_news ::
  "config \<Rightarrow> world \<Rightarrow> ustring list \<Rightarrow> state \<Rightarrow> article list \<times> state" where
  "collect_google_news cfg w queries st = google_queries cfg w (today_google w) queries [] st"

section \<open>The page collector\<close>

text \<open>
  The loop over \<open>range(MAX_PAGES_PER_QUERY)\<close> for one query, with the variables
  \<open>articles\<close> and \<open>count\<close>.
\<close>

fun naver_pages ::
  "config \<Rightarrow> world \<Rightarrow> ustring \<Rightarrow> ustring \<Rightarrow> nat list \<Rightarrow> article list \<Rightarrow> nat \<Rightarrow> state \<Rightarrow>
   (exn + article list \<times> nat) \<times> state" where
  "naver_pages cfg w today query' [] articles count st = (Inr (articles, count), st)"
| "naver_pages cfg w today query' (page # pages) articles count st =
     (let start = page * 10 + 1;
          u = NaverUrl query' start in
      case get cfg w u st of
        (Inl e, st1) \<Rightarrow> (Inl e, st1)
      | (Inr None, st1) \<Rightarrow> (Inr (articles, count), st1)
      | (Inr (Some resp), st1) \<Rightarrow>
          let items = parse_naver_page resp query' today in
          if items = [] then (Inr (articles, count), st1)
          else
            let articles1 = articles @ items;
                count1 = count + length items in
            if count1 \<ge> MAX_ARTICLES_PER_QUERY cfg then (Inr (articles1, count1), st1)
            else naver_pages cfg w today query' pages articles1 count1 (sleep w st1))"

fun naver_queries ::
  "config \<Rightarrow> world \<Rightarrow> ustring \<Rightarrow> ustring list \<Rightarrow> article list \<Rightarrow> state \<Rightarrow>
   (exn + article list) \<times> state" where
  "naver_queries cfg w today [] articles st = (Inr articles, st)"
| "naver_queries cfg w today (query' # queries) articles st =
     (case naver_pages cfg w today query' [0..<MAX_PAGES_PER_QUERY cfg] articles 0 st of
        (Inl e, st1) \<Rightarrow> (Inl e, st1)
      | (Inr (articles1, count), st1) \<Rightarrow>
          naver_queries cfg w today queries articles1 (sleep w st1))"

definition collect_naver_news ::
  "config \<Rightarrow> world \<Rightarrow> ustring list \<Rightarrow> state \<Rightarrow> (exn + article list) \<times> state" where
  "collect_naver_news cfg w queries st = naver_queries cfg w (today_naver w) queries [] st"

section \<open>The entry point\<close>

definition collect_all_news ::
  "config \<Rightarrow> world \<Rightarrow> ustring list \<Rightarrow> state \<Rightarrow> (exn + article list) \<times> state" where
  "collect_all_news cfg w queries st =
     (case collect_naver_news cfg w queries st of
        (Inl e, st1) \<Rightarrow> (Inl e, st1)
      | (Inr naver', st1) \<Rightarrow>
          (case collect_google_news cfg w queries st1 of
             (google', st2) \<Rightarrow>
               let all_raw = naver' @ google' in (Inr (dedup (tolower w) all_raw), st2)))"

text \<open>
  The first step of \<open>main\<close>: the process exits with status 1 when no article was
  collected, and goes on with the articles otherwise.
\<close>

datatype run = Exit nat | Proceed "article list" | Raised exn

definition main_collect :: "config \<Rightarrow> world \<Rightarrow> ustring list \<Rightarrow> state \<Rightarrow> run" where
  "main_collect cfg w HEALTH_QUERIES st =
     (case fst (collect_all_news cfg w HEALTH_QUERIES st) of
        Inl e \<Rightarrow> Raised e
      | Inr articles \<Rightarrow> if articles = [] then Exit 1 else Proceed articles)"

definition init :: state where
  "init = \<lparr>n_get = 0, n_feed = 0, n_rand = 0, trace = []\<rparr>"

section \<open>Auxiliary notions\<close>

text \<open>The events of one failed attempt of \<open>_get\<close>.\<close>

definition failed_attempt :: "config \<Rightarrow> url \<Rightarrow> nat \<Rightarrow> event list" where
  "failed_attempt cfg u attempt =
     Get u # (if attempt < MAX_RETRIES cfg then [SleepBackoff (2 ^ attempt)] else [])"

text \<open>What holds of every item the page parser builds, and of every feed article.\<close>

definition page_item :: "ustring \<Rightarrow> ustring \<Rightarrow> article \<Rightarrow> bool" where
  "page_item today q a =
     (source a = naver \<and> query a = q \<and> date a = today \<and>
      trimmed (title a) \<and> trimmed (description a) \<and>
      (published a = today \<or> trimmed (published a)))"

definition feed_item :: "ustring \<Rightarrow> ustring \<Rightarrow> article \<Rightarrow> bool" where
  "feed_item today q a =
     (source a = google \<and> query a = q \<and> date a = today \<and>
      trimmed (description a) \<and> dropWhile isspace (title a) = title a)"

text \<open>Two states in which the same numbers of requests and feed retrievals were made.\<close>

definition same_calls :: "state \<Rightarrow> state \<Rightarrow> bool" where
  "same_calls st1 st2 = (n_get st1 = n_get st2 \<and> n_feed st1 = n_feed st2)"

section \<open>Concrete configurations, pages and worlds\<close>

text \<open>
  The inputs on which the theorems below are instantiated. Their titles stay below
  U+0100, where the lower-case form of a code point does not depend on its neighbours:
  the letters A to Z and the capital letters of Latin-1 (U+00C0 to U+00DE, without the
  multiplication sign U+00D7) move up by 32, every other code point stays.
\<close>

definition latin1_lower_cp :: "nat \<Rightarrow> nat" where
  "latin1_lower_cp c =
     (if (65 \<le> c \<and> c \<le> 90) \<or> (192 \<le> c \<and> c \<le> 222 \<and> c \<noteq> 215) then c + 32 else c)"

definition latin1_tolower :: case_table where
  "latin1_tolower s i = [latin1_lower_cp (s ! i)]"

definition empty_soup :: soup where
  "empty_soup = \<lparr>sel_cards = [], sel_list_news = [], sel_news_wrap = []\<rparr>"

definition cfg_retry :: config where
  "cfg_retry = \<lparr>MAX_RETRIES = 3, MAX_ARTICLES_PER_QUERY = 30, MAX_PAGES_PER_QUERY = 3\<rparr>"

definition world_third_try :: world where
  "world_third_try =
     \<lparr>http = (\<lambda>n u. if n < 2 then RequestException else Response empty_soup),
      feedparser = (\<lambda>n u. FeedException), uniform = (\<lambda>n. 1),
      today_naver = ascii ''2026-01-05'', today_google = ascii ''2026-01-05'',
      tolower = latin1_tolower\<rparr>"

definition world_down :: world where
  "world_down =
     \<lparr>http = (\<lambda>n u. RequestException),
      feedparser = (\<lambda>n u. FeedException), uniform = (\<lambda>n. 1),
      today_naver = ascii ''2026-01-05'', today_google = ascii ''2026-01-05'',
      tolower = latin1_tolower\<rparr>"

definition legacy_item_flu :: legacy_item where
  "legacy_item_flu =
     \<lparr>li_news_tit = Some \<lparr>tag_href = Some (ascii ''https://news.example/1''),
                           tag_strings = [ascii '' Flu season '']\<rparr>,
      li_dsc_a = None, li_dsc_wrap = None, li_dsc_txt = None,
      li_info = None, li_info_group = None\<rparr>"

definition card_short_title :: card where
  "card_short_title =
     \<lparr>card_anchors = [\<lparr>tag_href = Some (ascii ''https://n.news.naver.com/a/1''),
                        tag_strings = [ascii ''News'']\<rparr>],
      card_subtexts = []\<rparr>"

definition soup_both_layouts :: soup where
  "soup_both_layouts =
     \<lparr>sel_cards = [card_short_title], sel_list_news = [legacy_item_flu], sel_news_wrap = []\<rparr>"

definition soup_legacy_only :: soup where
  "soup_legacy_only =
     \<lparr>sel_cards = [], sel_list_news = [], sel_news_wrap = [legacy_item_flu]\<rparr>"

definition legacy_item_cold :: legacy_item where
  "legacy_item_cold =
     \<lparr>li_news_tit = Some \<lparr>tag_href = Some (ascii ''https://news.example/2''),
                           tag_strings = [ascii ''Cold wave'']\<rparr>,
      li_dsc_a = None, li_dsc_wrap = None, li_dsc_txt = None,
      li_info = None, li_info_group = None\<rparr>"

definition soup_two_items :: soup where
  "soup_two_items =
     \<lparr>sel_cards = [], sel_list_news = [legacy_item_flu, legacy_item_cold], sel_news_wrap = []\<rparr>"

definition cfg_cap :: config where
  "cfg_cap = \<lparr>MAX_RETRIES = 3, MAX_ARTICLES_PER_QUERY = 3, MAX_PAGES_PER_QUERY = 5\<rparr>"

definition world_two_items :: world where
  "world_two_items =
     \<lparr>http = (\<lambda>n u. Response soup_two_items),
      feedparser = (\<lambda>n u. FeedException), uniform = (\<lambda>n. 1),
      today_naver = ascii ''2026-01-05'', today_google = ascii ''2026-01-05'',
      tolower = latin1_tolower\<rparr>"

definition article_flu :: article where
  "article_flu =
     \<lparr>date = ascii ''2026-01-05'', source = naver, query = ascii ''flu'',
      title = ascii ''Flu season'', description = [],
      link = ascii ''https://news.example/1'', published = ascii ''2026-01-05''\<rparr>"

definition article_cold :: article where
  "article_cold =
     \<lparr>date = ascii ''2026-01-05'', source = naver, query = ascii ''flu'',
      title = ascii ''Cold wave'', description = [],
      link = ascii ''https://news.example/2'', published = ascii ''2026-01-05''\<rparr>"

definition entry_suffix :: entry where
  "entry_suffix =
     \<lparr>e_title = Some (ascii '' Flu  - Daily ''),
      e_summary = [ascii '' Flu is '', ascii ''back ''],
      e_link = Some (ascii '' http://x ''),
      e_published = Some (ascii ''Mon '')\<rparr>"

definition world_feed :: world where
  "world_feed =
     \<lparr>http = (\<lambda>n u. RequestException),
      feedparser = (\<lambda>n u. Feed [entry_suffix]), uniform = (\<lambda>n. 1),
      today_naver = ascii ''2026-01-05'', today_google = ascii ''2026-01-05'',
      tolower = latin1_tolower\<rparr>"

definition article_suffix :: article where
  "article_suffix =
     \<lparr>date = ascii ''2026-01-05'', source = google, query = ascii '' flu'',
      title = ascii ''Flu '', description = ascii ''Flu is back'',
      link = ascii '' http://x '', published = ascii ''Mon ''\<rparr>"

definition legacy_item_aerzte :: legacy_item where
  "legacy_item_aerzte =
     \<lparr>li_news_tit =
        Some \<lparr>tag_href = Some (ascii ''https://news.example/3''),
              tag_strings =
                [[0xC4, 0x52, 0x5A, 0x54, 0x45, 0x20, 0x77, 0x61, 0x72, 0x6E, 0x65, 0x6E]]\<rparr>,
      li_dsc_a = None, li_dsc_wrap = None, li_dsc_txt = None,
      li_info = None, li_info_group = None\<rparr>"

definition soup_aerzte :: soup where
  "soup_aerzte = \<lparr>sel_cards = [], sel_list_news = [legacy_item_aerzte], sel_news_wrap = []\<rparr>"

definition entry_aerzte :: entry where
  "entry_aerzte =
     \<lparr>e_title = Some [0xE4, 0x72, 0x7A, 0x74, 0x65, 0x20, 0x77, 0x61, 0x72, 0x6E, 0x65, 0x6E],
      e_summary = [], e_link = Some (ascii ''https://feed.example/3''),
      e_published = None\<rparr>"

definition cfg_one :: config where
  "cfg_one = \<lparr>MAX_RETRIES = 3, MAX_ARTICLES_PER_QUERY = 1, MAX_PAGES_PER_QUERY = 3\<rparr>"

definition world_aerzte :: world where
  "world_aerzte =
     \<lparr>http = (\<lambda>n u. Response soup_aerzte),
      feedparser = (\<lambda>n u. Feed [entry_aerzte]), uniform = (\<lambda>n. 1),
      today_naver = ascii ''2026-01-05'', today_google = ascii ''2026-01-05'',
      tolower = latin1_tolower\<rparr>"

definition article_aerzte_page :: article where
  "article_aerzte_page =
     \<lparr>date = ascii ''2026-01-05'', source = naver, query = ascii ''Arzt'',
      title = [0xC4, 0x52, 0x5A, 0x54, 0x45, 0x20, 0x77, 0x61, 0x72, 0x6E, 0x65, 0x6E],
      description = [], link = ascii ''https://news.example/3'',
      published = ascii ''2026-01-05''\<rparr>"

definition article_aerzte_feed :: article where
  "article_aerzte_feed =
     \<lparr>date = ascii ''2026-01-05'', source = google, query = ascii ''Arzt'',
      title = [0xE4, 0x72, 0x7A, 0x74, 0x65, 0x20, 0x77, 0x61, 0x72, 0x6E, 0x65, 0x6E],
      description = [], link = ascii ''https://feed.example/3'',
      published = ascii ''2026-01-05''\<rparr>"

section \<open>Substrings and the last occurrence\<close>

lemma contains_iff: "contains sub s \<longleftrightarrow> (\<exists>p q. s = p @ sub @ q)"
proof (induction s)
  case Nil
  then show ?case by auto
next
  case (Cons c s)
  show ?case
  proof
    assume "contains sub (c # s)"
    then consider "prefix sub (c # s)" | "contains sub s" by auto
    then show "\<exists>p q. c # s = p @ sub @ q"
    proof cases
      case 1
      then obtain q where "c # s = sub @ q" by (auto simp: prefix_def)
      then have "c # s = [] @ sub @ q" by simp
      then show ?thesis by blast
    next
      case 2
      then obtain p q where "s = p @ sub @ q" using Cons.IH by blast
      then have "c # s = (c # p) @ sub @ q" by simp
      then show ?thesis by blast
    qed
  next
    assume "\<exists>p q. c # s = p @ sub @ q"
    then obtain p q where pq: "c # s = p @ sub @ q" by blast
    show "contains sub (c # s)"
    proof (cases p)
      case Nil
      then have "prefix sub (c # s)" using pq by (simp add: prefix_def)
      then show ?thesis by simp
    next
      case (Cons a p')
      then have "s = p' @ sub @ q" using pq by simp
      then have "contains sub s" using Cons.IH by blast
      then show ?thesis by simp
    qed
  qed
qed

lemma rfind_None_iff: "rfind sub s = None \<longleftrightarrow> \<not> contains sub s"
  by (induction s) (auto split: option.splits)

lemma rfind_Some:
  "rfind sub s = Some i \<Longrightarrow>
     (\<exists>q. s = take i s @ sub @ q) \<and> i \<le> length s \<and>
     (\<forall>p q. s = p @ sub @ q \<longrightarrow> length p \<le> i)"
proof (induction s arbitrary: i)
  case Nil
  then show ?case by (auto split: if_splits)
next
  case (Cons c s)
  show ?case
  proof (cases "rfind sub s")
    case None
    then have nc: "\<not> contains sub s" by (simp add: rfind_None_iff)
    from None Cons.prems have i0: "i = 0" and pre: "prefix sub (c # s)"
      by (auto split: if_splits)
    from pre obtain q where q: "c # s = sub @ q" by (auto simp: prefix_def)
    have "\<forall>p q. c # s = p @ sub @ q \<longrightarrow> length p \<le> i"
    proof (intro allI impI)
      fix p q assume h: "c # s = p @ sub @ q"
      show "length p \<le> i"
      proof (cases p)
        case Nil then show ?thesis by simp
      next
        case (Cons a p')
        then have "s = p' @ sub @ q" using h by simp
        then have "contains sub s" by (auto simp: contains_iff)
        then show ?thesis using nc by simp
      qed
    qed
    then show ?thesis using i0 q by auto
  next
    case (Some j)
    then have i: "i = Suc j" using Cons.prems by simp
    from Cons.IH[OF Some] obtain q where q: "s = take j s @ sub @ q" and jl: "j \<le> length s"
      and mx: "\<forall>p q. s = p @ sub @ q \<longrightarrow> length p \<le> j" by blast
    have "\<forall>p q. c # s = p @ sub @ q \<longrightarrow> length p \<le> i"
    proof (intro allI impI)
      fix p q assume h: "c # s = p @ sub @ q"
      show "length p \<le> i"
      proof (cases p)
        case Nil then show ?thesis by simp
      next
        case (Cons a p')
        then have "s = p' @ sub @ q" using h by simp
        then have "length p' \<le> j" using mx by blast
        then show ?thesis using Cons i by simp
      qed
    qed
    moreover have "c # s = take i (c # s) @ sub @ q" using q i by simp
    ultimately show ?thesis using i jl by auto
  qed
qed

lemma title_sep_eval: "title_sep = [32, 45, 32]"
  by (simp add: title_sep_def ascii_def)

section \<open>The lower-case form\<close>

lemma lower_Nil: "lower tbl [] = []"
  by (simp add: lower_def)

lemma concat_singletons: "concat (map (\<lambda>i. [f i]) xs) = map f xs"
  by (induction xs) simp_all

lemma lower_latin1: "lower latin1_tolower s = map latin1_lower_cp s"
proof -
  have "latin1_tolower s = (\<lambda>i. [latin1_lower_cp (s ! i)])"
    by (rule ext) (simp add: latin1_tolower_def)
  then have "lower latin1_tolower s = map (\<lambda>i. latin1_lower_cp (s ! i)) [0..<length s]"
    by (simp add: lower_def concat_singletons)
  also have "\<dots> = map latin1_lower_cp (map (\<lambda>i. s ! i) [0..<length s])"
    by (simp add: comp_def)
  also have "map (\<lambda>i. s ! i) [0..<length s] = s"
    by (rule map_nth)
  finally show ?thesis .
qed

section \<open>The accumulator of the deduplication loop\<close>

lemma dedup_loop_acc: "dedup_loop tbl xs seen acc = acc @ dedup_loop tbl xs seen []"
proof (induction xs arbitrary: seen acc)
  case Nil
  then show ?case by simp
next
  case (Cons a xs)
  show ?case
    using Cons.IH[of "insert (dedup_key tbl a) seen" "acc @ [a]"]
          Cons.IH[of "insert (dedup_key tbl a) seen" "[a]"]
          Cons.IH[of seen acc]
    by (simp add: Let_def)
qed

section \<open>Title cleanup of the feed collector\<close>

text \<open>
  Claim C9. The title of a feed article is the cleanup of \<open>raw_title\<close>, the stripped
  title of the entry. When the separator \<open>" - "\<close> occurs in \<open>raw_title\<close>, the cleanup
  is the part of \<open>raw_title\<close> before an occurrence of the separator, and no occurrence
  starts further to the right, so it is the part before the last one; when the
  separator does not occur, \<open>raw_title\<close> is returned as it is.
\<close>

theorem title_cleanup_last_separator:
  "title (google_article today q e) =
     title_cleanup (strip (case e_title e of None \<Rightarrow> [] | Some t \<Rightarrow> t)) \<and>
   (contains title_sep raw_title \<longleftrightarrow> (\<exists>p r. raw_title = p @ title_sep @ r)) \<and>
   (contains title_sep raw_title \<longrightarrow>
      (\<exists>r. raw_title = title_cleanup raw_title @ title_sep @ r) \<and>
      (\<forall>p r. raw_title = p @ title_sep @ r \<longrightarrow> length p \<le> length (title_cleanup raw_title))) \<and>
   (\<not> contains title_sep raw_title \<longrightarrow> title_cleanup raw_title = raw_title)"
proof (intro conjI impI)
  show "title (google_article today q e) =
     title_cleanup (strip (case e_title e of None \<Rightarrow> [] | Some t \<Rightarrow> t))"
    by (simp add: google_article_def Let_def)
  show "contains title_sep raw_title \<longleftrightarrow> (\<exists>p r. raw_title = p @ title_sep @ r)"
    by (rule contains_iff)
  show "title_cleanup raw_title = raw_title" if "\<not> contains title_sep raw_title"
    using that by (simp add: title_cleanup_def)
next
  assume c: "contains title_sep raw_title"
  then obtain i where i: "rfind title_sep raw_title = Some i"
    using rfind_None_iff[of title_sep raw_title] by (cases "rfind title_sep raw_title") auto
  have tc: "title_cleanup raw_title = take i raw_title"
    using c i by (simp add: title_cleanup_def rsplit1_head_def)
  from rfind_Some[OF i] obtain r where r: "raw_title = take i raw_title @ title_sep @ r"
    and il: "i \<le> length raw_title"
    and mx: "\<forall>p r. raw_title = p @ title_sep @ r \<longrightarrow> length p \<le> i" by blast
  show "\<exists>r. raw_title = title_cleanup raw_title @ title_sep @ r"
    using r tc by auto
  have len: "length (title_cleanup raw_title) = i"
    using il tc by simp
  show "\<forall>p r. raw_title = p @ title_sep @ r \<longrightarrow> length p \<le> length (title_cleanup raw_title)"
    unfolding len using mx by blast
qed

theorem title_cleanup_last_separator_witness:
  "contains title_sep (ascii ''Flu season hits hard - HealthDaily'') \<and>
   title_cleanup (ascii ''Flu season hits hard - HealthDaily'') = ascii ''Flu season hits hard'' \<and>
   ascii ''Flu season hits hard - HealthDaily'' =
     title_cleanup (ascii ''Flu season hits hard - HealthDaily'') @ title_sep @ ascii ''HealthDaily'' \<and>
   \<not> contains title_sep (ascii ''Flu news'') \<and>
   title_cleanup (ascii ''Flu news'') = ascii ''Flu news''"
  using title_cleanup_last_separator [of "[]" "[]" "\<lparr>e_title = None, e_summary = [], e_link = None, e_published = None\<rparr>"
          "ascii ''Flu season hits hard - HealthDaily''"]
        title_cleanup_last_separator [of "[]" "[]" "\<lparr>e_title = None, e_summary = [], e_link = None, e_published = None\<rparr>"
          "ascii ''Flu news''"]
  by (simp add: title_cleanup_def title_sep_eval ascii_def rsplit1_head_def)

section \<open>Deduplication keeps the first occurrences\<close>

lemma nth_filter_upt_Cons:
  "map (\<lambda>i. (a # xs) ! i) (filter Q [0..<length (a # xs)]) =
     (if Q 0 then [a] else []) @ map (\<lambda>i. xs ! i) (filter (\<lambda>i. Q (Suc i)) [0..<length xs])"
proof -
  have upt: "[0..<length (a # xs)] = 0 # map Suc [0..<length xs]"
    by (simp add: upt_conv_Cons map_Suc_upt del: upt_Suc)
  show ?thesis
    by (simp only: upt) (simp add: filter_map comp_def)
qed

lemma dedup_loop_positions:
  "dedup_loop tbl xs seen [] =
     map (\<lambda>i. xs ! i)
       (filter (\<lambda>i. dedup_key tbl (xs ! i) \<noteq> [] \<and>
                    dedup_key tbl (xs ! i) \<notin> seen \<union> set (map (dedup_key tbl) (take i xs)))
          [0..<length xs])"
proof (induction xs arbitrary: seen)
  case Nil
  then show ?case by simp
next
  case (Cons a xs)
  let ?Q = "\<lambda>i. dedup_key tbl ((a # xs) ! i) \<noteq> [] \<and>
                 dedup_key tbl ((a # xs) ! i) \<notin> seen \<union> set (map (dedup_key tbl) (take i (a # xs)))"
  have pos: "map (\<lambda>i. (a # xs) ! i) (filter ?Q [0..<length (a # xs)]) =
     (if ?Q 0 then [a] else []) @ map (\<lambda>i. xs ! i) (filter (\<lambda>i. ?Q (Suc i)) [0..<length xs])"
    by (rule nth_filter_upt_Cons)
  show ?case
  proof (cases "dedup_key tbl a \<noteq> [] \<and> dedup_key tbl a \<notin> seen")
    case True
    have q0: "?Q 0" using True by simp
    have qs: "(\<lambda>i. ?Q (Suc i)) =
              (\<lambda>i. dedup_key tbl (xs ! i) \<noteq> [] \<and>
                   dedup_key tbl (xs ! i) \<notin> insert (dedup_key tbl a) seen \<union> set (map (dedup_key tbl) (take i xs)))"
      by (rule ext) auto
    have "dedup_loop tbl (a # xs) seen [] = [a] @ dedup_loop tbl xs (insert (dedup_key tbl a) seen) []"
      using True dedup_loop_acc[of tbl xs "insert (dedup_key tbl a) seen" "[a]"] by (simp add: Let_def)
    also have "dedup_loop tbl xs (insert (dedup_key tbl a) seen) [] =
       map (\<lambda>i. xs ! i) (filter (\<lambda>i. ?Q (Suc i)) [0..<length xs])"
      unfolding qs by (rule Cons.IH)
    finally show ?thesis unfolding pos using q0 by simp
  next
    case False
    have q0: "\<not> ?Q 0" using False by auto
    have qs: "(\<lambda>i. ?Q (Suc i)) =
              (\<lambda>i. dedup_key tbl (xs ! i) \<noteq> [] \<and>
                   dedup_key tbl (xs ! i) \<notin> seen \<union> set (map (dedup_key tbl) (take i xs)))"
      using False by (intro ext) auto
    have "dedup_loop tbl (a # xs) seen [] = dedup_loop tbl xs seen []"
      using False by (auto simp add: Let_def)
    also have "\<dots> = map (\<lambda>i. xs ! i) (filter (\<lambda>i. ?Q (Suc i)) [0..<length xs])"
      unfolding qs by (rule Cons.IH)
    finally show ?thesis unfolding pos using q0 by simp
  qed
qed

lemma dedup_loop_keep:
  "dedup_key tbl a \<noteq> [] \<Longrightarrow> dedup_key tbl a \<notin> seen \<Longrightarrow>
   dedup_loop tbl (a # xs) seen acc = dedup_loop tbl xs (insert (dedup_key tbl a) seen) (acc @ [a])"
  by (simp add: Let_def)

lemma dedup_loop_skip:
  "dedup_key tbl a = [] \<or> dedup_key tbl a \<in> seen \<Longrightarrow>
   dedup_loop tbl (a # xs) seen acc = dedup_loop tbl xs seen acc"
  by (auto simp add: Let_def)

lemma dedup_loop_insert_empty_key:
  "dedup_loop tbl ys (insert [] S) acc = dedup_loop tbl ys S acc"
proof (induction ys arbitrary: S acc)
  case Nil
  then show ?case by simp
next
  case (Cons a ys)
  show ?case
  proof (cases "dedup_key tbl a \<noteq> [] \<and> dedup_key tbl a \<notin> S")
    case True
    then have "dedup_loop tbl (a # ys) (insert [] S) acc =
               dedup_loop tbl ys (insert (dedup_key tbl a) (insert [] S)) (acc @ [a])"
      by (intro dedup_loop_keep) auto
    also have "insert (dedup_key tbl a) (insert [] S) = insert [] (insert (dedup_key tbl a) S)"
      by (rule insert_commute)
    also have "dedup_loop tbl ys (insert [] (insert (dedup_key tbl a) S)) (acc @ [a]) =
               dedup_loop tbl ys (insert (dedup_key tbl a) S) (acc @ [a])"
      by (rule Cons.IH)
    also have "\<dots> = dedup_loop tbl (a # ys) S acc"
      using True by (simp add: dedup_loop_keep)
    finally show ?thesis .
  next
    case False
    then have "dedup_loop tbl (a # ys) (insert [] S) acc = dedup_loop tbl ys (insert [] S) acc"
      by (intro dedup_loop_skip) auto
    also have "\<dots> = dedup_loop tbl ys S acc" by (rule Cons.IH)
    also have "\<dots> = dedup_loop tbl (a # ys) S acc"
      using False by (intro dedup_loop_skip[symmetric]) auto
    finally show ?thesis .
  qed
qed

lemma dedup_loop_seen_filter:
  "dedup_loop tbl xs (S \<union> T) acc = dedup_loop tbl (filter (\<lambda>b. dedup_key tbl b \<notin> S) xs) T acc"
proof (induction xs arbitrary: T acc)
  case Nil
  then show ?case by simp
next
  case (Cons a xs)
  consider (inS) "dedup_key tbl a \<in> S"
    | (keep) "dedup_key tbl a \<notin> S" "dedup_key tbl a \<noteq> []" "dedup_key tbl a \<notin> T"
    | (skip) "dedup_key tbl a \<notin> S" "dedup_key tbl a = [] \<or> dedup_key tbl a \<in> T"
    by blast
  then show ?case
  proof cases
    case inS
    then have "dedup_loop tbl (a # xs) (S \<union> T) acc = dedup_loop tbl xs (S \<union> T) acc"
      by (intro dedup_loop_skip) simp
    then show ?thesis using inS Cons.IH[of T acc] by simp
  next
    case keep
    then have "dedup_loop tbl (a # xs) (S \<union> T) acc =
               dedup_loop tbl xs (insert (dedup_key tbl a) (S \<union> T)) (acc @ [a])"
      by (intro dedup_loop_keep) auto
    also have "insert (dedup_key tbl a) (S \<union> T) = S \<union> insert (dedup_key tbl a) T" by simp
    also have "dedup_loop tbl xs (S \<union> insert (dedup_key tbl a) T) (acc @ [a]) =
               dedup_loop tbl (filter (\<lambda>b. dedup_key tbl b \<notin> S) xs) (insert (dedup_key tbl a) T) (acc @ [a])"
      by (rule Cons.IH)
    also have "\<dots> = dedup_loop tbl (a # filter (\<lambda>b. dedup_key tbl b \<notin> S) xs) T acc"
      using keep by (simp add: dedup_loop_keep)
    finally show ?thesis using keep by simp
  next
    case skip
    then have "dedup_loop tbl (a # xs) (S \<union> T) acc = dedup_loop tbl xs (S \<union> T) acc"
      by (intro dedup_loop_skip) auto
    also have "\<dots> = dedup_loop tbl (filter (\<lambda>b. dedup_key tbl b \<notin> S) xs) T acc"
      by (rule Cons.IH)
    also have "\<dots> = dedup_loop tbl (a # filter (\<lambda>b. dedup_key tbl b \<notin> S) xs) T acc"
      using skip by (intro dedup_loop_skip[symmetric]) auto
    finally show ?thesis using skip by simp
  qed
qed

lemma dedup_loop_append:
  "dedup_loop tbl (xs @ ys) seen acc =
     dedup_loop tbl ys (seen \<union> dedup_key tbl ` set xs) (dedup_loop tbl xs seen acc)"
proof (induction xs arbitrary: seen acc)
  case Nil
  then show ?case by simp
next
  case (Cons a xs)
  consider (keep) "dedup_key tbl a \<noteq> []" "dedup_key tbl a \<notin> seen"
    | (dup) "dedup_key tbl a \<in> seen"
    | (empty) "dedup_key tbl a = []"
    by blast
  then show ?case
  proof cases
    case keep
    have s: "insert (dedup_key tbl a) seen \<union> dedup_key tbl ` set xs = seen \<union> dedup_key tbl ` set (a # xs)"
      by simp
    have "dedup_loop tbl ((a # xs) @ ys) seen acc =
          dedup_loop tbl (xs @ ys) (insert (dedup_key tbl a) seen) (acc @ [a])"
      using keep by (simp add: Let_def)
    moreover have "dedup_loop tbl (a # xs) seen acc =
          dedup_loop tbl xs (insert (dedup_key tbl a) seen) (acc @ [a])"
      using keep by (simp add: Let_def)
    ultimately show ?thesis
      using Cons.IH[of "insert (dedup_key tbl a) seen" "acc @ [a]"] by (simp only: s)
  next
    case dup
    have s: "seen \<union> dedup_key tbl ` set xs = seen \<union> dedup_key tbl ` set (a # xs)"
      using dup by auto
    have "dedup_loop tbl ((a # xs) @ ys) seen acc = dedup_loop tbl (xs @ ys) seen acc"
      using dup by (simp add: Let_def)
    moreover have "dedup_loop tbl (a # xs) seen acc = dedup_loop tbl xs seen acc"
      using dup by (simp add: Let_def)
    ultimately show ?thesis using Cons.IH[of seen acc] by (simp only: s)
  next
    case empty
    have s: "seen \<union> dedup_key tbl ` set (a # xs) = insert [] (seen \<union> dedup_key tbl ` set xs)"
      using empty by simp
    have "dedup_loop tbl ((a # xs) @ ys) seen acc = dedup_loop tbl (xs @ ys) seen acc"
      using empty by (simp add: Let_def)
    moreover have "dedup_loop tbl (a # xs) seen acc = dedup_loop tbl xs seen acc"
      using empty by (simp add: Let_def)
    ultimately show ?thesis using Cons.IH[of seen acc]
      by (simp only: s dedup_loop_insert_empty_key)
  qed
qed

text \<open>
  Claim C2. On the page results followed by the feed results, and for every lower-case
  table of the runtime, the loop returns the records at the positions whose key
  \<open>lower (strip title)\<close> is not empty and has not occurred at an earlier position, in
  the order of the positions. A page record is
  never displaced by a feed record: the page records kept are the ones kept on the
  page results alone, and a feed record is kept only if its key is the key of no page
  record.
\<close>

theorem dedup_first_occurrences:
  "dedup tbl (naver' @ google') = first_occurrences tbl (naver' @ google') \<and>
   dedup tbl (naver' @ google') =
     dedup tbl naver' @ dedup tbl (filter (\<lambda>b. dedup_key tbl b \<notin> dedup_key tbl ` set naver') google')"
proof
  show "dedup tbl (naver' @ google') = first_occurrences tbl (naver' @ google')"
    using dedup_loop_positions[of tbl "naver' @ google'" "{}"]
    by (simp only: dedup_def first_occurrences_def Un_empty_left)
next
  have "dedup tbl (naver' @ google') =
        dedup_loop tbl google' ({} \<union> dedup_key tbl ` set naver') (dedup tbl naver')"
    by (simp only: dedup_def dedup_loop_append)
  also have "\<dots> = dedup tbl naver' @ dedup_loop tbl google' ({} \<union> dedup_key tbl ` set naver') []"
    by (rule dedup_loop_acc)
  also have "{} \<union> dedup_key tbl ` set naver' = dedup_key tbl ` set naver' \<union> {}"
    by simp
  also have "dedup_loop tbl google' (dedup_key tbl ` set naver' \<union> {}) [] =
             dedup tbl (filter (\<lambda>b. dedup_key tbl b \<notin> dedup_key tbl ` set naver') google')"
    by (simp only: dedup_loop_seen_filter dedup_def)
  finally show "dedup tbl (naver' @ google') =
     dedup tbl naver' @ dedup tbl (filter (\<lambda>b. dedup_key tbl b \<notin> dedup_key tbl ` set naver') google')" .
qed

theorem dedup_first_occurrences_witness:
  "dedup latin1_tolower
     ([\<lparr>date = [], source = naver, query = [], title = ascii '' Flu News '',
        description = [], link = [], published = []\<rparr>] @
      [\<lparr>date = [], source = google, query = [], title = ascii ''flu news'',
        description = [], link = [], published = []\<rparr>,
       \<lparr>date = [], source = google, query = [], title = ascii ''  '',
        description = [], link = [], published = []\<rparr>,
       \<lparr>date = [], source = google, query = [], title = ascii ''Cold'',
        description = [], link = [], published = []\<rparr>]) =
     [\<lparr>date = [], source = naver, query = [], title = ascii '' Flu News '',
        description = [], link = [], published = []\<rparr>,
      \<lparr>date = [], source = google, query = [], title = ascii ''Cold'',
        description = [], link = [], published = []\<rparr>] \<and>
   dedup latin1_tolower
     ([\<lparr>date = [], source = naver, query = [],
        title = [0xC9, 0x43, 0x4F, 0x4C, 0x45, 0x20, 0x73, 0x61, 0x6E, 0x74, 0xE9],
        description = [], link = [], published = []\<rparr>] @
      [\<lparr>date = [], source = google, query = [],
        title = [0xE9, 0x63, 0x6F, 0x6C, 0x65, 0x20, 0x73, 0x61, 0x6E, 0x74, 0xE9],
        description = [], link = [], published = []\<rparr>,
       \<lparr>date = [], source = google, query = [], title = ascii ''Cold'',
        description = [], link = [], published = []\<rparr>]) =
     [\<lparr>date = [], source = naver, query = [],
        title = [0xC9, 0x43, 0x4F, 0x4C, 0x45, 0x20, 0x73, 0x61, 0x6E, 0x74, 0xE9],
        description = [], link = [], published = []\<rparr>,
      \<lparr>date = [], source = google, query = [], title = ascii ''Cold'',
        description = [], link = [], published = []\<rparr>]"
  using dedup_first_occurrences [of latin1_tolower
     "[\<lparr>date = [], source = naver, query = [], title = ascii '' Flu News '',
        description = [], link = [], published = []\<rparr>]"
     "[\<lparr>date = [], source = google, query = [], title = ascii ''flu news'',
        description = [], link = [], published = []\<rparr>,
       \<lparr>date = [], source = google, query = [], title = ascii ''  '',
        description = [], link = [], published = []\<rparr>,
       \<lparr>date = [], source = google, query = [], title = ascii ''Cold'',
        description = [], link = [], published = []\<rparr>]"]
    dedup_first_occurrences [of latin1_tolower
     "[\<lparr>date = [], source = naver, query = [],
        title = [0xC9, 0x43, 0x4F, 0x4C, 0x45, 0x20, 0x73, 0x61, 0x6E, 0x74, 0xE9],
        description = [], link = [], published = []\<rparr>]"
     "[\<lparr>date = [], source = google, query = [],
        title = [0xE9, 0x63, 0x6F, 0x6C, 0x65, 0x20, 0x73, 0x61, 0x6E, 0x74, 0xE9],
        description = [], link = [], published = []\<rparr>,
       \<lparr>date = [], source = google, query = [], title = ascii ''Cold'',
        description = [], link = [], published = []\<rparr>]"]
  by (simp add: dedup_def dedup_key_def strip_def lower_latin1 latin1_lower_cp_def isspace_def
        ascii_def naver_def google_def Let_def)

section \<open>Retry and backoff\<close>

lemma get_attempts_success:
  "k < length attempts \<Longrightarrow>
   (\<forall>i<k. http w (n_get st + i) u = RequestException) \<Longrightarrow>
   http w (n_get st + k) u = Response resp \<Longrightarrow>
   get_attempts cfg w u attempts st =
     (Inr (Some resp),
      st\<lparr>n_get := n_get st + k + 1,
         trace := trace st @ concat (map (failed_attempt cfg u) (take k attempts)) @ [Get u]\<rparr>)"
proof (induction attempts arbitrary: k st)
  case Nil
  then show ?case by simp
next
  case (Cons a attempts)
  show ?case
  proof (cases k)
    case 0
    then show ?thesis using Cons.prems by simp
  next
    case (Suc k')
    let ?st1 = "st\<lparr>n_get := Suc (n_get st), trace := trace st @ [Get u]\<rparr>"
    let ?st2 = "if a < MAX_RETRIES cfg
                then ?st1\<lparr>trace := trace ?st1 @ [SleepBackoff (2 ^ a)]\<rparr> else ?st1"
    have f0: "http w (n_get st) u = RequestException"
      using Cons.prems(2) Suc by (metis add.right_neutral zero_less_Suc)
    have step: "get_attempts cfg w u (a # attempts) st = get_attempts cfg w u attempts ?st2"
      using f0 by (simp add: Let_def)
    have n2: "n_get ?st2 = Suc (n_get st)" by simp
    have t2: "trace ?st2 = trace st @ failed_attempt cfg u a"
      by (simp add: failed_attempt_def)
    have k': "k' < length attempts" using Cons.prems(1) Suc by simp
    have fails: "\<forall>i<k'. http w (n_get ?st2 + i) u = RequestException"
    proof (intro allI impI)
      fix i assume "i < k'"
      then have "Suc i < k" using Suc by simp
      then have "http w (n_get st + Suc i) u = RequestException" using Cons.prems(2) by blast
      then show "http w (n_get ?st2 + i) u = RequestException" by (simp only: n2) simp
    qed
    have ok: "http w (n_get ?st2 + k') u = Response resp"
      using Cons.prems(3) Suc by (simp only: n2) simp
    have "get_attempts cfg w u attempts ?st2 =
      (Inr (Some resp),
       ?st2\<lparr>n_get := n_get ?st2 + k' + 1,
           trace := trace ?st2 @ concat (map (failed_attempt cfg u) (take k' attempts)) @ [Get u]\<rparr>)"
      by (rule Cons.IH[OF k' fails ok])
    also have "?st2\<lparr>n_get := n_get ?st2 + k' + 1,
           trace := trace ?st2 @ concat (map (failed_attempt cfg u) (take k' attempts)) @ [Get u]\<rparr> =
         st\<lparr>n_get := n_get st + k + 1,
            trace := trace st @ concat (map (failed_attempt cfg u) (take k (a # attempts))) @ [Get u]\<rparr>"
      unfolding t2 n2 using Suc by (simp add: failed_attempt_def)
    finally show ?thesis using step by simp
  qed
qed

lemma get_attempts_exhausted:
  "(\<forall>i<length attempts. http w (n_get st + i) u = RequestException) \<Longrightarrow>
   get_attempts cfg w u attempts st =
     (Inr None,
      st\<lparr>n_get := n_get st + length attempts,
         trace := trace st @ concat (map (failed_attempt cfg u) attempts)\<rparr>)"
proof (induction attempts arbitrary: st)
  case Nil
  then show ?case by simp
next
  case (Cons a attempts)
  let ?st1 = "st\<lparr>n_get := Suc (n_get st), trace := trace st @ [Get u]\<rparr>"
  let ?st2 = "if a < MAX_RETRIES cfg
              then ?st1\<lparr>trace := trace ?st1 @ [SleepBackoff (2 ^ a)]\<rparr> else ?st1"
  have f0: "http w (n_get st) u = RequestException"
    using Cons.prems by (metis add.right_neutral length_greater_0_conv list.distinct(1))
  have step: "get_attempts cfg w u (a # attempts) st = get_attempts cfg w u attempts ?st2"
    using f0 by (simp add: Let_def)
  have n2: "n_get ?st2 = Suc (n_get st)" by simp
  have t2: "trace ?st2 = trace st @ failed_attempt cfg u a"
    by (simp add: failed_attempt_def)
  have fails: "\<forall>i<length attempts. http w (n_get ?st2 + i) u = RequestException"
  proof (intro allI impI)
    fix i assume "i < length attempts"
    then have "Suc i < length (a # attempts)" by simp
    then have "http w (n_get st + Suc i) u = RequestException" using Cons.prems by blast
    then show "http w (n_get ?st2 + i) u = RequestException" by (simp only: n2) simp
  qed
  have "get_attempts cfg w u attempts ?st2 =
     (Inr None,
      ?st2\<lparr>n_get := n_get ?st2 + length attempts,
          trace := trace ?st2 @ concat (map (failed_attempt cfg u) attempts)\<rparr>)"
    by (rule Cons.IH[OF fails])
  also have "?st2\<lparr>n_get := n_get ?st2 + length attempts,
          trace := trace ?st2 @ concat (map (failed_attempt cfg u) attempts)\<rparr> =
     st\<lparr>n_get := n_get st + length (a # attempts),
        trace := trace st @ concat (map (failed_attempt cfg u) (a # attempts))\<rparr>"
    unfolding t2 n2 by (simp add: failed_attempt_def)
  finally show ?case using step by simp
qed

lemma failed_attempts_before_last:
  assumes "n \<le> MAX_RETRIES cfg"
  shows "concat (map (failed_attempt cfg u) [1..<n]) =
         concat (map (\<lambda>attempt. [Get u, SleepBackoff (2 ^ attempt)]) [1..<n])"
proof -
  have "map (failed_attempt cfg u) [1..<n] =
        map (\<lambda>attempt. [Get u, SleepBackoff (2 ^ attempt)]) [1..<n]"
  proof (rule map_cong)
    fix x assume "x \<in> set [1..<n]"
    then have "x < MAX_RETRIES cfg" using assms by simp
    then show "failed_attempt cfg u x = [Get u, SleepBackoff (2 ^ x)]"
      by (simp add: failed_attempt_def)
  qed simp
  then show ?thesis by (rule arg_cong)
qed

text \<open>
  Claim C3. When the requests of attempts \<open>1\<close> to \<open>N - 1\<close> raise \<open>RequestException\<close>
  and the request of attempt \<open>N \<le> MAX_RETRIES\<close> succeeds, \<open>_get\<close> returns that response
  after exactly \<open>N\<close> requests, with a sleep of \<open>2 ^ attempt\<close> seconds after each of the
  attempts \<open>1\<close> to \<open>N - 1\<close> and none after the last. When all \<open>MAX_RETRIES\<close> attempts
  raise \<open>RequestException\<close>, it returns \<open>None\<close> as a normal result, having slept after
  every attempt but the last.
\<close>

theorem get_retry_backoff:
  "(1 \<le> N \<and> N \<le> MAX_RETRIES cfg \<and>
    (\<forall>i<N - 1. http w (n_get st + i) u = RequestException) \<and>
    http w (n_get st + (N - 1)) u = Response resp \<longrightarrow>
      get cfg w u st =
        (Inr (Some resp),
         st\<lparr>n_get := n_get st + N,
            trace := trace st @
              concat (map (\<lambda>attempt. [Get u, SleepBackoff (2 ^ attempt)]) [1..<N]) @ [Get u]\<rparr>)) \<and>
   ((\<forall>i<MAX_RETRIES cfg. http w (n_get st + i) u = RequestException) \<longrightarrow>
      get cfg w u st =
        (Inr None,
         st\<lparr>n_get := n_get st + MAX_RETRIES cfg,
            trace := trace st @
              concat (map (\<lambda>attempt. [Get u, SleepBackoff (2 ^ attempt)])
                        [1..<MAX_RETRIES cfg]) @
              (if MAX_RETRIES cfg = 0 then [] else [Get u])\<rparr>))"
proof (intro conjI impI)
  assume h: "1 \<le> N \<and> N \<le> MAX_RETRIES cfg \<and>
    (\<forall>i<N - 1. http w (n_get st + i) u = RequestException) \<and>
    http w (n_get st + (N - 1)) u = Response resp"
  let ?as = "[1..<MAX_RETRIES cfg + 1]"
  have k: "N - 1 < length ?as" using h by (simp, arith)
  have tk: "take (N - 1) ?as = [1..<N]" using h by (simp add: take_upt)
  have "get cfg w u st =
     (Inr (Some resp),
      st\<lparr>n_get := n_get st + (N - 1) + 1,
         trace := trace st @ concat (map (failed_attempt cfg u) (take (N - 1) ?as)) @ [Get u]\<rparr>)"
    unfolding get_def using h by (intro get_attempts_success[OF k]) auto
  moreover have "n_get st + (N - 1) + 1 = n_get st + N" using h by simp
  moreover have "concat (map (failed_attempt cfg u) [1..<N]) =
         concat (map (\<lambda>attempt. [Get u, SleepBackoff (2 ^ attempt)]) [1..<N])"
    using h by (intro failed_attempts_before_last) simp
  ultimately show "get cfg w u st =
        (Inr (Some resp),
         st\<lparr>n_get := n_get st + N,
            trace := trace st @
              concat (map (\<lambda>attempt. [Get u, SleepBackoff (2 ^ attempt)]) [1..<N]) @ [Get u]\<rparr>)"
    by (simp only: tk)
next
  assume h: "\<forall>i<MAX_RETRIES cfg. http w (n_get st + i) u = RequestException"
  let ?M = "MAX_RETRIES cfg"
  let ?as = "[1..<?M + 1]"
  have "get cfg w u st =
     (Inr None,
      st\<lparr>n_get := n_get st + length ?as,
         trace := trace st @ concat (map (failed_attempt cfg u) ?as)\<rparr>)"
    unfolding get_def using h by (intro get_attempts_exhausted) simp
  moreover have "length ?as = ?M" by simp
  moreover have "concat (map (failed_attempt cfg u) ?as) =
      concat (map (\<lambda>attempt. [Get u, SleepBackoff (2 ^ attempt)]) [1..<?M]) @
      (if ?M = 0 then [] else [Get u])"
  proof (cases "?M = 0")
    case True
    then show ?thesis by simp
  next
    case False
    then have "?as = [1..<?M] @ [?M]" by simp
    then have "concat (map (failed_attempt cfg u) ?as) =
               concat (map (failed_attempt cfg u) [1..<?M]) @ failed_attempt cfg u ?M"
      by simp
    also have "failed_attempt cfg u ?M = [Get u]" by (simp add: failed_attempt_def)
    also have "concat (map (failed_attempt cfg u) [1..<?M]) =
       concat (map (\<lambda>attempt. [Get u, SleepBackoff (2 ^ attempt)]) [1..<?M])"
      by (intro failed_attempts_before_last) simp
    finally show ?thesis using False by simp
  qed
  ultimately show "get cfg w u st =
        (Inr None,
         st\<lparr>n_get := n_get st + ?M,
            trace := trace st @
              concat (map (\<lambda>attempt. [Get u, SleepBackoff (2 ^ attempt)]) [1..<?M]) @
              (if ?M = 0 then [] else [Get u])\<rparr>)"
    by simp
qed

lemma upt_1_3: "[Suc 0..<3] = [Suc 0, 2]"
  by (simp add: upt_rec)

theorem get_retry_backoff_witness:
  "get cfg_retry world_third_try (NaverUrl (ascii ''flu'') 1) init =
     (Inr (Some empty_soup),
      \<lparr>n_get = 3, n_feed = 0, n_rand = 0,
       trace = [Get (NaverUrl (ascii ''flu'') 1), SleepBackoff 2,
                Get (NaverUrl (ascii ''flu'') 1), SleepBackoff 4,
                Get (NaverUrl (ascii ''flu'') 1)]\<rparr>) \<and>
   get cfg_retry world_down (NaverUrl (ascii ''flu'') 1) init =
     (Inr None,
      \<lparr>n_get = 3, n_feed = 0, n_rand = 0,
       trace = [Get (NaverUrl (ascii ''flu'') 1), SleepBackoff 2,
                Get (NaverUrl (ascii ''flu'') 1), SleepBackoff 4,
                Get (NaverUrl (ascii ''flu'') 1)]\<rparr>)"
  using get_retry_backoff [of 3 cfg_retry world_third_try init "NaverUrl (ascii ''flu'') 1" empty_soup]
        get_retry_backoff [of 3 cfg_retry world_down init "NaverUrl (ascii ''flu'') 1" empty_soup]
  by (simp add: cfg_retry_def world_third_try_def world_down_def init_def upt_1_3)

section \<open>One layout per page\<close>

lemma parse_cards_all_none:
  "(\<forall>c\<in>set cs. parse_card q today c = None) \<Longrightarrow> parse_cards q today cs items = items"
  by (induction cs arbitrary: items) auto

text \<open>
  Claim C6. When the selection of current-layout containers is not empty, the items
  are the ones the current-layout rules produce from these containers; whatever the
  legacy selectors would return has no influence, and the result is empty when every
  container is filtered out. The legacy rules are applied only when the selection of
  current-layout containers is empty.
\<close>

theorem layout_exclusive:
  "(sel_cards html \<noteq> [] \<longrightarrow>
      parse_naver_page html q today = parse_cards q today (sel_cards html) [] \<and>
      parse_naver_page (html\<lparr>sel_list_news := l1, sel_news_wrap := l2\<rparr>) q today =
        parse_naver_page html q today \<and>
      ((\<forall>c\<in>set (sel_cards html). parse_card q today c = None) \<longrightarrow>
         parse_naver_page html q today = [])) \<and>
   (sel_cards html = [] \<longrightarrow>
      parse_naver_page html q today =
        parse_legacy q today
          (if sel_list_news html \<noteq> [] then sel_list_news html else sel_news_wrap html) [])"
  by (simp add: parse_naver_page_def Let_def parse_cards_all_none)

lemma parse_card_short_title: "parse_card q today card_short_title = None"
  by (simp add: parse_card_def card_short_title_def is_article_link_def get_href_def
        get_text_def strip_def isspace_def ascii_def Let_def)

theorem layout_exclusive_witness:
  "sel_cards soup_both_layouts \<noteq> [] \<and>
   parse_naver_page soup_both_layouts (ascii ''flu'') (ascii ''2026-01-05'') = [] \<and>
   sel_cards soup_legacy_only = [] \<and>
   parse_naver_page soup_legacy_only (ascii ''flu'') (ascii ''2026-01-05'') =
     [\<lparr>date = ascii ''2026-01-05'', source = naver, query = ascii ''flu'',
       title = ascii ''Flu season'', description = [],
       link = ascii ''https://news.example/1'', published = ascii ''2026-01-05''\<rparr>]"
proof -
  have a: "sel_cards soup_both_layouts \<noteq> []"
    and b: "\<forall>c\<in>set (sel_cards soup_both_layouts). parse_card (ascii ''flu'') (ascii ''2026-01-05'') c = None"
    by (simp_all add: soup_both_layouts_def parse_card_short_title)
  have c: "sel_cards soup_legacy_only = []"
    and d: "sel_list_news soup_legacy_only = []"
    and e: "sel_news_wrap soup_legacy_only = [legacy_item_flu]"
    by (simp_all add: soup_legacy_only_def)
  have f: "parse_legacy (ascii ''flu'') (ascii ''2026-01-05'') [legacy_item_flu] [] =
     [\<lparr>date = ascii ''2026-01-05'', source = naver, query = ascii ''flu'',
       title = ascii ''Flu season'', description = [],
       link = ascii ''https://news.example/1'', published = ascii ''2026-01-05''\<rparr>]"
    by (simp add: parse_legacy_item_def legacy_item_flu_def or_else_def get_href_def
          get_text_def strip_def isspace_def ascii_def Let_def)
  have r1: "parse_naver_page soup_both_layouts (ascii ''flu'') (ascii ''2026-01-05'') = []"
    using layout_exclusive [of soup_both_layouts "ascii ''flu''" "ascii ''2026-01-05''" "[]" "[]"]
          a b
    by blast
  have "parse_naver_page soup_legacy_only (ascii ''flu'') (ascii ''2026-01-05'') =
        parse_legacy (ascii ''flu'') (ascii ''2026-01-05'')
          (if sel_list_news soup_legacy_only \<noteq> [] then sel_list_news soup_legacy_only
           else sel_news_wrap soup_legacy_only) []"
    using layout_exclusive [of soup_legacy_only "ascii ''flu''" "ascii ''2026-01-05''" "[]" "[]"]
          c
    by blast
  also have "(if sel_list_news soup_legacy_only \<noteq> [] then sel_list_news soup_legacy_only
           else sel_news_wrap soup_legacy_only) = [legacy_item_flu]"
    by (simp only: d e) simp
  finally have r2: "parse_naver_page soup_legacy_only (ascii ''flu'') (ascii ''2026-01-05'') =
     [\<lparr>date = ascii ''2026-01-05'', source = naver, query = ascii ''flu'',
       title = ascii ''Flu season'', description = [],
       link = ascii ''https://news.example/1'', published = ascii ''2026-01-05''\<rparr>]"
    by (simp only: f)
  from a r1 c r2 show ?thesis by blast
qed

section \<open>Pagination stops at a failed or empty page\<close>

lemma get_attempts_trace:
  "\<exists>evs. trace (snd (get_attempts cfg w u attempts st)) = trace st @ evs \<and>
         set evs \<subseteq> insert (Get u) (range SleepBackoff)"
proof (induction attempts arbitrary: st)
  case Nil
  then show ?case by simp
next
  case (Cons a attempts)
  let ?st1 = "st\<lparr>n_get := Suc (n_get st), trace := trace st @ [Get u]\<rparr>"
  let ?st2 = "if a < MAX_RETRIES cfg
              then ?st1\<lparr>trace := trace ?st1 @ [SleepBackoff (2 ^ a)]\<rparr> else ?st1"
  show ?case
  proof (cases "http w (n_get st) u")
    case (Response resp)
    then have "trace (snd (get_attempts cfg w u (a # attempts) st)) = trace st @ [Get u]"
      by (simp add: Let_def)
    then show ?thesis by auto
  next
    case OtherError
    then have "trace (snd (get_attempts cfg w u (a # attempts) st)) = trace st @ [Get u]"
      by (simp add: Let_def)
    then show ?thesis by auto
  next
    case RequestException
    then have step: "get_attempts cfg w u (a # attempts) st = get_attempts cfg w u attempts ?st2"
      by (simp add: Let_def)
    obtain evs where evs: "trace (snd (get_attempts cfg w u attempts ?st2)) = trace ?st2 @ evs"
      and sub: "set evs \<subseteq> insert (Get u) (range SleepBackoff)"
      using Cons.IH[of ?st2] by blast
    obtain pre where pre: "trace ?st2 = trace st @ pre"
      and psub: "set pre \<subseteq> insert (Get u) (range SleepBackoff)"
      by (cases "a < MAX_RETRIES cfg") auto
    have "trace (snd (get_attempts cfg w u (a # attempts) st)) = trace st @ (pre @ evs)"
      using step evs pre by simp
    moreover have "set (pre @ evs) \<subseteq> insert (Get u) (range SleepBackoff)"
      using sub psub by auto
    ultimately show ?thesis by blast
  qed
qed

text \<open>
  Claim C5. At any point of the page loop of a query, with any pages still to come:
  when the fetch of the current page returns \<open>None\<close>, or returns a page from which no
  item is parsed, the loop ends there with the articles and the count unchanged, as a
  normal result. The state is the one the fetch of that page left, so the only
  requests made are the attempts for that page.
\<close>

theorem pagination_stops:
  "(fst (get cfg w (NaverUrl q (page * 10 + 1)) st) = Inr None \<or>
    (\<exists>resp. fst (get cfg w (NaverUrl q (page * 10 + 1)) st) = Inr (Some resp) \<and>
            parse_naver_page resp q today = [])) \<longrightarrow>
   naver_pages cfg w today q (page # pages) articles count st =
     (Inr (articles, count), snd (get cfg w (NaverUrl q (page * 10 + 1)) st)) \<and>
   (\<exists>evs. trace (snd (naver_pages cfg w today q (page # pages) articles count st)) =
            trace st @ evs \<and>
          set evs \<subseteq> insert (Get (NaverUrl q (page * 10 + 1))) (range SleepBackoff))"
proof
  let ?u = "NaverUrl q (page * 10 + 1)"
  assume h: "fst (get cfg w ?u st) = Inr None \<or>
    (\<exists>resp. fst (get cfg w ?u st) = Inr (Some resp) \<and> parse_naver_page resp q today = [])"
  obtain r st1 where g: "get cfg w ?u st = (r, st1)" by (cases "get cfg w ?u st")
  have eq: "naver_pages cfg w today q (page # pages) articles count st =
            (Inr (articles, count), snd (get cfg w ?u st))"
    using h g by (auto simp add: Let_def)
  have "\<exists>evs. trace (snd (get cfg w ?u st)) = trace st @ evs \<and>
          set evs \<subseteq> insert (Get ?u) (range SleepBackoff)"
    unfolding get_def by (rule get_attempts_trace)
  then show "naver_pages cfg w today q (page # pages) articles count st =
     (Inr (articles, count), snd (get cfg w ?u st)) \<and>
   (\<exists>evs. trace (snd (naver_pages cfg w today q (page # pages) articles count st)) =
            trace st @ evs \<and>
          set evs \<subseteq> insert (Get ?u) (range SleepBackoff))"
    unfolding eq by simp
qed

lemma upt_1_4: "[Suc 0..<4] = [Suc 0, 2, 3]"
  by (simp add: upt_rec)

lemma get_world_down:
  "get cfg_retry world_down u init =
     (Inr None, \<lparr>n_get = 3, n_feed = 0, n_rand = 0,
                 trace = [Get u, SleepBackoff 2, Get u, SleepBackoff 4, Get u]\<rparr>)"
  by (simp add: get_def cfg_retry_def world_down_def init_def upt_1_4 Let_def)

lemma get_world_third_try:
  "get cfg_retry world_third_try u init =
     (Inr (Some empty_soup), \<lparr>n_get = 3, n_feed = 0, n_rand = 0,
                 trace = [Get u, SleepBackoff 2, Get u, SleepBackoff 4, Get u]\<rparr>)"
  by (simp add: get_def cfg_retry_def world_third_try_def init_def upt_1_4 Let_def)

lemma parse_empty_soup: "parse_naver_page empty_soup q today = []"
  by (simp add: parse_naver_page_def empty_soup_def)

theorem pagination_stops_witness:
  "naver_pages cfg_retry world_down (ascii ''2026-01-05'') (ascii ''flu'') [0, 1, 2] [] 0 init =
     (Inr ([], 0),
      \<lparr>n_get = 3, n_feed = 0, n_rand = 0,
       trace = [Get (NaverUrl (ascii ''flu'') 1), SleepBackoff 2,
                Get (NaverUrl (ascii ''flu'') 1), SleepBackoff 4,
                Get (NaverUrl (ascii ''flu'') 1)]\<rparr>) \<and>
   naver_pages cfg_retry world_third_try (ascii ''2026-01-05'') (ascii ''flu'') [0, 1, 2] [] 0 init =
     (Inr ([], 0),
      \<lparr>n_get = 3, n_feed = 0, n_rand = 0,
       trace = [Get (NaverUrl (ascii ''flu'') 1), SleepBackoff 2,
                Get (NaverUrl (ascii ''flu'') 1), SleepBackoff 4,
                Get (NaverUrl (ascii ''flu'') 1)]\<rparr>)"
  using pagination_stops [of cfg_retry world_down "ascii ''flu''" 0 init "ascii ''2026-01-05''"
          "[1, 2]" "[]" 0]
        pagination_stops [of cfg_retry world_third_try "ascii ''flu''" 0 init "ascii ''2026-01-05''"
          "[1, 2]" "[]" 0]
  by (simp add: get_world_down get_world_third_try parse_empty_soup)

section \<open>The cap on the articles of a query\<close>

lemma upt_0_5: "[0..<5] = [0, Suc 0, 2, 3, 4]"
  by (simp add: upt_rec)

lemma upt_0_3: "[0..<3] = [0, Suc 0, 2]"
  by (simp add: upt_rec)

lemma parse_two_items:
  "parse_naver_page soup_two_items (ascii ''flu'') (ascii ''2026-01-05'') =
     [article_flu, article_cold]"
  by (simp add: parse_naver_page_def soup_two_items_def parse_legacy_item_def
        legacy_item_flu_def legacy_item_cold_def article_flu_def article_cold_def
        or_else_def get_href_def get_text_def strip_def isspace_def ascii_def Let_def)

lemma get_two_items:
  "get cfg_cap world_two_items u st =
     (Inr (Some soup_two_items), st\<lparr>n_get := Suc (n_get st), trace := trace st @ [Get u]\<rparr>)"
  by (simp add: get_def cfg_cap_def world_two_items_def upt_1_4 Let_def)

lemma collect_naver_two_items:
  "\<exists>st'. collect_naver_news cfg_cap world_two_items [ascii ''flu''] init =
     (Inr [article_flu, article_cold, article_flu, article_cold], st')"
proof -
  have cap: "MAX_ARTICLES_PER_QUERY cfg_cap = 3" and pages: "MAX_PAGES_PER_QUERY cfg_cap = 5"
    by (simp_all add: cfg_cap_def)
  have today: "today_naver world_two_items = ascii ''2026-01-05''"
    by (simp add: world_two_items_def)
  have "fst (naver_pages cfg_cap world_two_items (ascii ''2026-01-05'') (ascii ''flu'')
               [0..<MAX_PAGES_PER_QUERY cfg_cap] [] 0 init) =
        Inr ([article_flu, article_cold, article_flu, article_cold], 4)"
    by (simp add: pages upt_0_5 get_two_items parse_two_items cap Let_def)
  then obtain st' where eq:
    "naver_pages cfg_cap world_two_items (ascii ''2026-01-05'') (ascii ''flu'')
               [0..<MAX_PAGES_PER_QUERY cfg_cap] [] 0 init =
        (Inr ([article_flu, article_cold, article_flu, article_cold], 4), st')"
    by (metis prod.collapse)
  have "naver_queries cfg_cap world_two_items (ascii ''2026-01-05'') [ascii ''flu''] [] init =
        (Inr [article_flu, article_cold, article_flu, article_cold], sleep world_two_items st')"
    by (simp only: naver_queries.simps eq) simp
  then show ?thesis
    by (simp add: collect_naver_news_def today)
qed

text \<open>
  Claim C1. With a cap of 3 articles per query and result pages of two items, the page
  collector keeps four articles for the one query: the whole second page is appended
  before the count is compared with the cap.
\<close>

theorem page_cap_exceeded:
  "fst (collect_naver_news cfg_cap world_two_items [ascii ''flu''] init) =
     Inr [article_flu, article_cold, article_flu, article_cold] \<and>
   MAX_ARTICLES_PER_QUERY cfg_cap = 3"
  using collect_naver_two_items by (auto simp add: cfg_cap_def)

text \<open>The feed collector, in contrast, never keeps more than the cap for one query.\<close>

lemma google_entries_cap:
  "length (google_entries cfg today q es articles count) \<le>
     length articles + (MAX_ARTICLES_PER_QUERY cfg - count)"
proof (induction es arbitrary: articles count)
  case Nil
  then show ?case by simp
next
  case (Cons e es)
  show ?case
  proof (cases "count \<ge> MAX_ARTICLES_PER_QUERY cfg")
    case True
    then show ?thesis by simp
  next
    case False
    have "length (google_entries cfg today q es (articles @ [google_article today q e]) (count + 1))
          \<le> length (articles @ [google_article today q e]) +
             (MAX_ARTICLES_PER_QUERY cfg - (count + 1))"
      by (rule Cons.IH)
    then show ?thesis using False by simp
  qed
qed

section \<open>Trimmed fields\<close>

lemma last_dropWhile:
  "dropWhile P xs \<noteq> [] \<Longrightarrow> last (dropWhile P xs) = last xs"
  by (induction xs) (auto split: if_splits)

lemma dropWhile_hd: "xs = [] \<or> \<not> P (hd xs) \<Longrightarrow> dropWhile P xs = xs"
  by (cases xs) auto

lemma strip_ends:
  assumes "strip s \<noteq> []"
  shows "\<not> isspace (hd (strip s)) \<and> \<not> isspace (last (strip s))"
proof -
  let ?t = "dropWhile isspace s"
  let ?u = "dropWhile isspace (rev ?t)"
  have s: "strip s = rev ?u" by (simp add: strip_def)
  have u: "?u \<noteq> []" using assms s by simp
  have t: "?t \<noteq> []"
  proof
    assume e: "?t = []"
    have "?u = []" unfolding e by simp
    then show False using u by contradiction
  qed
  have "\<not> isspace (hd ?u)" using u by (rule hd_dropWhile)
  then have l: "\<not> isspace (last (strip s))" using u s by (simp add: last_rev)
  have "last ?u = last (rev ?t)" using u by (rule last_dropWhile)
  also have "\<dots> = hd ?t" using t by (simp add: last_rev)
  finally have "hd (strip s) = hd ?t" using u s by (simp add: hd_rev)
  moreover have "\<not> isspace (hd ?t)" using t by (rule hd_dropWhile)
  ultimately show ?thesis using l by simp
qed

lemma trimmedI:
  assumes "s = [] \<or> (\<not> isspace (hd s) \<and> \<not> isspace (last s))"
  shows "trimmed s"
proof (cases "s = []")
  case True
  then show ?thesis by (simp add: trimmed_def strip_def)
next
  case False
  then have h: "\<not> isspace (hd s)" and l: "\<not> isspace (last s)" using assms by auto
  have d: "dropWhile isspace s = s" using h by (intro dropWhile_hd) simp
  have "hd (rev s) = last s" using False by (simp add: hd_rev)
  then have "dropWhile isspace (rev s) = rev s" using l by (intro dropWhile_hd) simp
  then show ?thesis using d by (simp add: trimmed_def strip_def)
qed

lemma trimmed_strip: "trimmed (strip s)"
  using strip_ends[of s] by (intro trimmedI) blast

lemma join_ends:
  "xs \<noteq> [] \<Longrightarrow> \<forall>x\<in>set xs. x \<noteq> [] \<and> \<not> isspace (hd x) \<and> \<not> isspace (last x) \<Longrightarrow>
   join sep xs \<noteq> [] \<and> \<not> isspace (hd (join sep xs)) \<and> \<not> isspace (last (join sep xs))"
proof (induction sep xs rule: join.induct)
  case (1 sep)
  then show ?case by simp
next
  case (2 sep x)
  then show ?case by simp
next
  case (3 sep x y ys)
  have ih: "join sep (y # ys) \<noteq> [] \<and> \<not> isspace (hd (join sep (y # ys))) \<and>
            \<not> isspace (last (join sep (y # ys)))"
    using 3 by simp
  have x: "x \<noteq> []" "\<not> isspace (hd x)" using 3(3) by auto
  have "join sep (x # y # ys) = x @ sep @ join sep (y # ys)" by simp
  then show ?case using ih x by simp
qed

lemma trimmed_get_text: "trimmed (get_text sep ss)"
proof (cases "filter (\<lambda>s. s \<noteq> []) (map strip ss) = []")
  case True
  then show ?thesis by (simp add: get_text_def trimmed_def strip_def)
next
  case False
  have "\<forall>x\<in>set (filter (\<lambda>s. s \<noteq> []) (map strip ss)).
          x \<noteq> [] \<and> \<not> isspace (hd x) \<and> \<not> isspace (last x)"
    using strip_ends by auto
  from join_ends[OF False this, of sep] show ?thesis
    unfolding get_text_def by (intro trimmedI) blast
qed

lemma lstrip_take_strip: "dropWhile isspace (take i (strip s)) = take i (strip s)"
proof (cases "take i (strip s) = []")
  case True
  then show ?thesis by (intro dropWhile_hd) blast
next
  case False
  then have ne: "strip s \<noteq> []" and i: "i \<noteq> 0" by auto
  have "hd (take i (strip s)) = hd (strip s)" using i by (cases "strip s"; cases i) auto
  then have "\<not> isspace (hd (take i (strip s)))" using strip_ends[OF ne] by simp
  then show ?thesis by (intro dropWhile_hd) blast
qed

lemma lstrip_title_cleanup: "dropWhile isspace (title_cleanup (strip s)) = title_cleanup (strip s)"
proof -
  have "title_cleanup (strip s) = strip s \<or> (\<exists>i. title_cleanup (strip s) = take i (strip s))"
    by (auto simp add: title_cleanup_def rsplit1_head_def split: option.splits)
  moreover have "dropWhile isspace (strip s) = strip s"
    using lstrip_take_strip[of "length (strip s)" s] by simp
  ultimately show ?thesis using lstrip_take_strip by auto
qed

lemma find_published_trimmed:
  "find_published today spans = today \<or> trimmed (find_published today spans)"
  by (induction spans) (auto simp add: Let_def trimmed_get_text)

lemma parse_card_item: "parse_card q today c = Some a \<Longrightarrow> page_item today q a"
  using find_published_trimmed[of today "card_subtexts c"]
  by (auto simp add: parse_card_def page_item_def Let_def trimmed_get_text trimmedI
           split: if_splits)

lemma parse_legacy_item_item: "parse_legacy_item q today li = Some a \<Longrightarrow> page_item today q a"
  by (auto simp add: parse_legacy_item_def page_item_def Let_def trimmed_get_text trimmedI
           split: option.splits)

lemma parse_cards_items:
  "\<forall>a\<in>set items. page_item today q a \<Longrightarrow>
   \<forall>a\<in>set (parse_cards q today cs items). page_item today q a"
proof (induction cs arbitrary: items)
  case Nil
  then show ?case by simp
next
  case (Cons c cs)
  show ?case
  proof (cases "parse_card q today c")
    case None
    then show ?thesis using Cons by simp
  next
    case (Some a)
    then have "\<forall>b\<in>set (items @ [a]). page_item today q b"
      using Cons.prems parse_card_item by auto
    then have "\<forall>b\<in>set (parse_cards q today cs (items @ [a])). page_item today q b"
      by (rule Cons.IH)
    then show ?thesis using Some by simp
  qed
qed

lemma parse_legacy_items:
  "\<forall>a\<in>set items. page_item today q a \<Longrightarrow>
   \<forall>a\<in>set (parse_legacy q today lis items). page_item today q a"
proof (induction lis arbitrary: items)
  case Nil
  then show ?case by simp
next
  case (Cons li lis)
  show ?case
  proof (cases "parse_legacy_item q today li")
    case None
    then show ?thesis using Cons by simp
  next
    case (Some a)
    then have "\<forall>b\<in>set (items @ [a]). page_item today q b"
      using Cons.prems parse_legacy_item_item by auto
    then have "\<forall>b\<in>set (parse_legacy q today lis (items @ [a])). page_item today q b"
      by (rule Cons.IH)
    then show ?thesis using Some by simp
  qed
qed

lemma parse_naver_page_items:
  "\<forall>a\<in>set (parse_naver_page html q today). page_item today q a"
  using parse_cards_items[of "[]" today q] parse_legacy_items[of "[]" today q]
  by (simp add: parse_naver_page_def Let_def)

lemma naver_pages_items:
  "\<forall>a\<in>set articles. Q a \<Longrightarrow> \<forall>a. page_item today q a \<longrightarrow> Q a \<Longrightarrow>
   naver_pages cfg w today q pages articles count st = (Inr (arts, c), st') \<Longrightarrow>
   \<forall>a\<in>set arts. Q a"
proof (induction pages arbitrary: articles count st)
  case Nil
  then show ?case by simp
next
  case (Cons page pages)
  let ?u = "NaverUrl q (page * 10 + 1)"
  obtain r st1 where g: "get cfg w ?u st = (r, st1)" by (cases "get cfg w ?u st")
  show ?case
  proof (cases r)
    case (Inl e)
    then show ?thesis using Cons.prems(3) g by (simp add: Let_def)
  next
    case (Inr ro)
    show ?thesis
    proof (cases ro)
      case None
      then show ?thesis using Cons.prems g Inr by (simp add: Let_def)
    next
      case (Some resp)
      let ?items = "parse_naver_page resp q today"
      have items: "\<forall>a\<in>set ?items. Q a"
        using parse_naver_page_items[of resp q today] Cons.prems(2) by blast
      show ?thesis
      proof (cases "?items = []")
        case True
        then show ?thesis using Cons.prems g Inr Some by (simp add: Let_def)
      next
        case False
        have all: "\<forall>a\<in>set (articles @ ?items). Q a" using Cons.prems(1) items by auto
        show ?thesis
        proof (cases "count + length ?items \<ge> MAX_ARTICLES_PER_QUERY cfg")
          case True
          then have "arts = articles @ ?items"
            using Cons.prems(3) g Inr Some False by (simp add: Let_def)
          then show ?thesis using all by simp
        next
          case nf: False
          have "naver_pages cfg w today q pages (articles @ ?items) (count + length ?items)
                  (sleep w st1) = (Inr (arts, c), st')"
            using Cons.prems(3) g Inr Some False nf by (simp add: Let_def)
          from Cons.IH[OF all Cons.prems(2) this] show ?thesis .
        qed
      qed
    qed
  qed
qed

lemma naver_queries_items:
  "\<forall>a\<in>set articles. Q a \<Longrightarrow> \<forall>q\<in>set qs. \<forall>a. page_item today q a \<longrightarrow> Q a \<Longrightarrow>
   naver_queries cfg w today qs articles st = (Inr arts, st') \<Longrightarrow>
   \<forall>a\<in>set arts. Q a"
proof (induction qs arbitrary: articles st)
  case Nil
  then show ?case by simp
next
  case (Cons q qs)
  let ?np = "naver_pages cfg w today q [0..<MAX_PAGES_PER_QUERY cfg] articles 0 st"
  obtain r st1 where np: "?np = (r, st1)" by (cases ?np)
  show ?case
  proof (cases r)
    case (Inl e)
    then show ?thesis using Cons.prems(3) np by simp
  next
    case (Inr p)
    obtain articles1 count where p: "p = (articles1, count)" by (cases p)
    have np': "?np = (Inr (articles1, count), st1)" using np Inr p by simp
    have hq: "\<forall>a. page_item today q a \<longrightarrow> Q a" using Cons.prems(2) by simp
    have hqs: "\<forall>q\<in>set qs. \<forall>a. page_item today q a \<longrightarrow> Q a" using Cons.prems(2) by simp
    have a1: "\<forall>a\<in>set articles1. Q a"
      by (rule naver_pages_items[OF Cons.prems(1) hq np'])
    have "naver_queries cfg w today qs articles1 (sleep w st1) = (Inr arts, st')"
      using Cons.prems(3) np' by simp
    from Cons.IH[OF a1 hqs this] show ?thesis .
  qed
qed

lemma google_article_item: "feed_item today q (google_article today q e)"
  by (simp add: google_article_def feed_item_def Let_def trimmed_get_text lstrip_title_cleanup)

lemma google_entries_items:
  "\<forall>a\<in>set articles. Q a \<Longrightarrow> \<forall>a. feed_item today q a \<longrightarrow> Q a \<Longrightarrow>
   \<forall>a\<in>set (google_entries cfg today q es articles count). Q a"
proof (induction es arbitrary: articles count)
  case Nil
  then show ?case by simp
next
  case (Cons e es)
  have "\<forall>a\<in>set (articles @ [google_article today q e]). Q a"
    using Cons.prems google_article_item[of today q e] by auto
  from Cons.IH[OF this Cons.prems(2)] Cons.prems(1) show ?case by simp
qed

lemma google_queries_items:
  "\<forall>a\<in>set articles. Q a \<Longrightarrow> \<forall>q\<in>set qs. \<forall>a. feed_item today q a \<longrightarrow> Q a \<Longrightarrow>
   \<forall>a\<in>set (fst (google_queries cfg w today qs articles st)). Q a"
proof (induction qs arbitrary: articles st)
  case Nil
  then show ?case by simp
next
  case (Cons q qs)
  let ?st1 = "st\<lparr>n_feed := Suc (n_feed st), trace := trace st @ [FeedParse (GoogleUrl q)]\<rparr>"
  have hq: "\<forall>a. feed_item today q a \<longrightarrow> Q a" using Cons.prems(2) by simp
  have hqs: "\<forall>q\<in>set qs. \<forall>a. feed_item today q a \<longrightarrow> Q a" using Cons.prems(2) by simp
  show ?case
  proof (cases "feedparser w (n_feed st) (GoogleUrl q)")
    case FeedException
    have "\<forall>a\<in>set (fst (google_queries cfg w today qs articles (sleep w ?st1))). Q a"
      by (rule Cons.IH[OF Cons.prems(1) hqs])
    then show ?thesis using FeedException by (simp add: Let_def)
  next
    case (Feed entries)
    have "\<forall>a\<in>set (google_entries cfg today q entries articles 0). Q a"
      by (rule google_entries_items[OF Cons.prems(1) hq])
    then have "\<forall>a\<in>set (fst (google_queries cfg w today qs
                 (google_entries cfg today q entries articles 0) (sleep w ?st1))). Q a"
      by (rule Cons.IH[OF _ hqs])
    then show ?thesis using Feed by (simp add: Let_def)
  qed
qed

lemma google_article_suffix:
  "google_article (ascii ''2026-01-05'') (ascii '' flu'') entry_suffix = article_suffix"
  by (simp add: google_article_def entry_suffix_def article_suffix_def title_cleanup_def
        title_sep_def rsplit1_head_def get_text_def strip_def isspace_def ascii_def Let_def)

lemma collect_google_feed:
  "collect_google_news cfg_retry world_feed [ascii '' flu''] st =
     ([article_suffix],
      sleep world_feed
        (st\<lparr>n_feed := Suc (n_feed st),
            trace := trace st @ [FeedParse (GoogleUrl (ascii '' flu''))]\<rparr>))"
proof -
  have f: "feedparser world_feed (n_feed st) (GoogleUrl (ascii '' flu'')) = Feed [entry_suffix]"
    and t: "today_google world_feed = ascii ''2026-01-05''"
    by (simp_all add: world_feed_def)
  show ?thesis
    by (simp add: collect_google_news_def f t google_article_suffix cfg_retry_def Let_def)
qed

lemma article_suffix_untrimmed:
  "\<not> trimmed (title article_suffix)" "\<not> trimmed (link article_suffix)"
  "\<not> trimmed (published article_suffix)" "\<not> trimmed (query article_suffix)"
  by (simp_all add: article_suffix_def trimmed_def strip_def isspace_def ascii_def)

text \<open>
  Not every field is trimmed: the feed collector copies the link, the publication text
  and the query as they are, and the cleanup of the title can leave the white space
  that stood before the separator.
\<close>

theorem untrimmed_fields_emitted:
  "fst (collect_google_news cfg_retry world_feed [ascii '' flu''] init) = [article_suffix] \<and>
   \<not> trimmed (title article_suffix) \<and> \<not> trimmed (link article_suffix) \<and>
   \<not> trimmed (published article_suffix) \<and> \<not> trimmed (query article_suffix)"
  by (simp add: collect_google_feed article_suffix_untrimmed)

text \<open>
  Claim C7, as amended. In every item of the page collector the title and the
  description are trimmed, and the publication text is trimmed unless it is the run
  date passed in; in every item of the feed collector the description is trimmed and
  the title has no leading white space. The query of every item is one of the queries
  given, unchanged.
\<close>

theorem emitted_fields_trimmed:
  "(fst (collect_naver_news cfg w qs st) = Inr arts \<longrightarrow>
      (\<forall>a\<in>set arts. trimmed (title a) \<and> trimmed (description a) \<and>
                     (published a = today_naver w \<or> trimmed (published a)) \<and>
                     query a \<in> set qs)) \<and>
   (\<forall>a\<in>set (fst (collect_google_news cfg w qs st)).
      trimmed (description a) \<and> dropWhile isspace (title a) = title a \<and> query a \<in> set qs)"
proof (intro conjI impI)
  assume h: "fst (collect_naver_news cfg w qs st) = Inr arts"
  let ?Q = "\<lambda>a. trimmed (title a) \<and> trimmed (description a) \<and>
                 (published a = today_naver w \<or> trimmed (published a)) \<and> query a \<in> set qs"
  obtain st' where e: "naver_queries cfg w (today_naver w) qs [] st = (Inr arts, st')"
    using h unfolding collect_naver_news_def by (metis prod.collapse)
  have a: "\<forall>a\<in>set ([]::article list). ?Q a" by simp
  have b: "\<forall>q\<in>set qs. \<forall>a. page_item (today_naver w) q a \<longrightarrow> ?Q a"
    by (simp add: page_item_def)
  show "\<forall>a\<in>set arts. ?Q a"
    by (rule naver_queries_items[where Q = ?Q, OF a b e])
next
  let ?Q = "\<lambda>a. trimmed (description a) \<and> dropWhile isspace (title a) = title a \<and>
                 query a \<in> set qs"
  have a: "\<forall>a\<in>set ([]::article list). ?Q a" by simp
  have b: "\<forall>q\<in>set qs. \<forall>a. feed_item (today_google w) q a \<longrightarrow> ?Q a"
    by (simp add: feed_item_def)
  show "\<forall>a\<in>set (fst (collect_google_news cfg w qs st)). ?Q a"
    unfolding collect_google_news_def
    by (rule google_queries_items[where Q = ?Q, OF a b])
qed

theorem emitted_fields_trimmed_witness:
  "trimmed (title article_flu) \<and> trimmed (description article_flu) \<and>
   trimmed (published article_flu) \<and> query article_flu = ascii ''flu'' \<and>
   trimmed (description article_suffix) \<and>
   dropWhile isspace (title article_suffix) = title article_suffix \<and>
   query article_suffix = ascii '' flu''"
proof -
  obtain st' where e: "collect_naver_news cfg_cap world_two_items [ascii ''flu''] init =
     (Inr [article_flu, article_cold, article_flu, article_cold], st')"
    using collect_naver_two_items by blast
  have n: "fst (collect_naver_news cfg_cap world_two_items [ascii ''flu''] init) =
     Inr [article_flu, article_cold, article_flu, article_cold]"
    using e by simp
  have g: "fst (collect_google_news cfg_retry world_feed [ascii '' flu''] init) = [article_suffix]"
    by (simp add: collect_google_feed)
  from emitted_fields_trimmed [of cfg_cap world_two_items "[ascii ''flu'']" init
         "[article_flu, article_cold, article_flu, article_cold]"] n
  have 1: "trimmed (title article_flu) \<and> trimmed (description article_flu) \<and>
           query article_flu = ascii ''flu''"
    by simp
  from emitted_fields_trimmed [of cfg_retry world_feed "[ascii '' flu'']" init "[]"] g
  have 2: "trimmed (description article_suffix) \<and>
           dropWhile isspace (title article_suffix) = title article_suffix \<and>
           query article_suffix = ascii '' flu''"
    by simp
  have 3: "trimmed (published article_flu)"
    by (simp add: article_flu_def trimmed_def strip_def isspace_def ascii_def)
  from 1 2 3 show ?thesis by blast
qed

section \<open>Invariants of the returned records\<close>

lemma dedup_loop_subset:
  "set (dedup_loop tbl xs seen acc) \<subseteq> set acc \<union> set xs"
proof (induction xs arbitrary: seen acc)
  case Nil
  then show ?case by simp
next
  case (Cons a xs)
  show ?case
    using Cons.IH[of "insert (dedup_key tbl a) seen" "acc @ [a]"] Cons.IH[of seen acc]
    by (auto simp add: Let_def)
qed

lemma dedup_loop_keys:
  "\<forall>a\<in>set acc. dedup_key tbl a \<noteq> [] \<Longrightarrow> distinct (map (dedup_key tbl) acc) \<Longrightarrow>
   dedup_key tbl ` set acc \<subseteq> seen \<Longrightarrow>
   (\<forall>a\<in>set (dedup_loop tbl xs seen acc). dedup_key tbl a \<noteq> []) \<and>
   distinct (map (dedup_key tbl) (dedup_loop tbl xs seen acc))"
proof (induction xs arbitrary: seen acc)
  case Nil
  then show ?case by simp
next
  case (Cons a xs)
  show ?case
  proof (cases "dedup_key tbl a \<noteq> [] \<and> dedup_key tbl a \<notin> seen")
    case True
    have 1: "\<forall>b\<in>set (acc @ [a]). dedup_key tbl b \<noteq> []" using Cons.prems(1) True by simp
    have 2: "distinct (map (dedup_key tbl) (acc @ [a]))" using Cons.prems(2,3) True by auto
    have 3: "dedup_key tbl ` set (acc @ [a]) \<subseteq> insert (dedup_key tbl a) seen"
      using Cons.prems(3) by auto
    have "dedup_loop tbl (a # xs) seen acc = dedup_loop tbl xs (insert (dedup_key tbl a) seen) (acc @ [a])"
      using True by (simp add: Let_def)
    then show ?thesis using Cons.IH[OF 1 2 3] by simp
  next
    case False
    then have "dedup_loop tbl (a # xs) seen acc = dedup_loop tbl xs seen acc"
      by (auto simp add: Let_def)
    then show ?thesis using Cons.IH[OF Cons.prems] by simp
  qed
qed

lemma dedup_key_nonempty: "dedup_key tbl a \<noteq> [] \<Longrightarrow> strip (title a) \<noteq> []"
  by (auto simp add: dedup_key_def lower_Nil)

lemma collect_naver_source:
  assumes "collect_naver_news cfg w qs st = (Inr arts, st')"
  shows "\<forall>a\<in>set arts. source a = naver"
proof -
  have a: "\<forall>a\<in>set ([]::article list). source a = naver" by simp
  have b: "\<forall>q\<in>set qs. \<forall>a. page_item (today_naver w) q a \<longrightarrow> source a = naver"
    by (simp add: page_item_def)
  show ?thesis
    using assms unfolding collect_naver_news_def
    by (rule naver_queries_items[where Q = "\<lambda>a. source a = naver", OF a b])
qed

lemma collect_google_source:
  "\<forall>a\<in>set (fst (collect_google_news cfg w qs st)). source a = google"
proof -
  have a: "\<forall>a\<in>set ([]::article list). source a = google" by simp
  have b: "\<forall>q\<in>set qs. \<forall>a. feed_item (today_google w) q a \<longrightarrow> source a = google"
    by (simp add: feed_item_def)
  show ?thesis
    unfolding collect_google_news_def
    by (rule google_queries_items[where Q = "\<lambda>a. source a = google", OF a b])
qed

text \<open>The entry point, when the page collector returns: the deduplicated concatenation.\<close>

lemma collect_all_news_Inr:
  assumes "fst (collect_all_news cfg w qs st) = Inr out"
  shows "\<exists>naver' st1. collect_naver_news cfg w qs st = (Inr naver', st1) \<and>
           out = dedup (tolower w) (naver' @ fst (collect_google_news cfg w qs st1))"
proof -
  obtain r st1 where n: "collect_naver_news cfg w qs st = (r, st1)"
    by (cases "collect_naver_news cfg w qs st")
  obtain g st2 where g: "collect_google_news cfg w qs st1 = (g, st2)"
    by (cases "collect_google_news cfg w qs st1")
  show ?thesis
  proof (cases r)
    case (Inl e)
    then show ?thesis using assms n by (simp add: collect_all_news_def)
  next
    case (Inr naver')
    then have "out = dedup (tolower w) (naver' @ g)"
      using assms n g by (simp add: collect_all_news_def Let_def)
    then show ?thesis using n g Inr by simp
  qed
qed

text \<open>
  Claim C4. Every record the entry point returns has a title that is not empty after
  trimming and carries one of the two source values, and the keys
  \<open>lower (strip title)\<close> of the returned records, taken with the lower-case table of
  the runtime, are pairwise distinct.
\<close>

theorem emitted_articles_invariants:
  "fst (collect_all_news cfg w qs st) = Inr out \<longrightarrow>
     (\<forall>a\<in>set out. strip (title a) \<noteq> [] \<and> (source a = naver \<or> source a = google)) \<and>
     distinct (map (dedup_key (tolower w)) out)"
proof
  assume h: "fst (collect_all_news cfg w qs st) = Inr out"
  from collect_all_news_Inr[OF h] obtain naver' st1 where
    n: "collect_naver_news cfg w qs st = (Inr naver', st1)" and
    out: "out = dedup (tolower w) (naver' @ fst (collect_google_news cfg w qs st1))"
    by blast
  let ?raw = "naver' @ fst (collect_google_news cfg w qs st1)"
  have src: "\<forall>a\<in>set ?raw. source a = naver \<or> source a = google"
    using collect_naver_source[OF n] collect_google_source[of cfg w qs st1] by auto
  have sub: "set out \<subseteq> set ?raw"
    using dedup_loop_subset[of "tolower w" ?raw "{}" "[]"] out by (simp add: dedup_def)
  have keys: "(\<forall>a\<in>set out. dedup_key (tolower w) a \<noteq> []) \<and> distinct (map (dedup_key (tolower w)) out)"
    using dedup_loop_keys[of "[]" "tolower w" "{}" ?raw] out by (simp add: dedup_def)
  show "(\<forall>a\<in>set out. strip (title a) \<noteq> [] \<and> (source a = naver \<or> source a = google)) \<and>
     distinct (map (dedup_key (tolower w)) out)"
    using src sub keys dedup_key_nonempty by blast
qed

lemma collect_all_two_items:
  "fst (collect_all_news cfg_cap world_two_items [ascii ''flu''] init) =
     Inr [article_flu, article_cold]"
proof -
  obtain st' where e: "collect_naver_news cfg_cap world_two_items [ascii ''flu''] init =
     (Inr [article_flu, article_cold, article_flu, article_cold], st')"
    using collect_naver_two_items by blast
  have f: "\<And>n u. feedparser world_two_items n u = FeedException"
    by (simp add: world_two_items_def)
  have "fst (collect_google_news cfg_cap world_two_items [ascii ''flu''] st') = []"
    by (simp add: collect_google_news_def f Let_def)
  then obtain st2 where g:
    "collect_google_news cfg_cap world_two_items [ascii ''flu''] st' = ([], st2)"
    by (metis prod.collapse)
  have t: "tolower world_two_items = latin1_tolower"
    by (simp add: world_two_items_def)
  have d: "dedup latin1_tolower [article_flu, article_cold, article_flu, article_cold] =
           [article_flu, article_cold]"
    by (simp add: dedup_def dedup_key_def article_flu_def article_cold_def strip_def
          lower_latin1 latin1_lower_cp_def isspace_def ascii_def Let_def)
  show ?thesis
    by (simp add: collect_all_news_def e g t d Let_def)
qed

lemma parse_soup_aerzte:
  "parse_naver_page soup_aerzte (ascii ''Arzt'') (ascii ''2026-01-05'') = [article_aerzte_page]"
  by (simp add: parse_naver_page_def soup_aerzte_def parse_legacy_item_def
        legacy_item_aerzte_def article_aerzte_page_def
        or_else_def get_href_def get_text_def strip_def isspace_def ascii_def Let_def)

lemma google_article_aerzte:
  "google_article (ascii ''2026-01-05'') (ascii ''Arzt'') entry_aerzte = article_aerzte_feed"
  by (simp add: google_article_def entry_aerzte_def article_aerzte_feed_def title_cleanup_def
        title_sep_def rsplit1_head_def get_text_def strip_def isspace_def ascii_def Let_def)

lemma collect_naver_aerzte:
  "\<exists>st'. collect_naver_news cfg_one world_aerzte [ascii ''Arzt''] init =
     (Inr [article_aerzte_page], st')"
proof -
  have cap: "MAX_ARTICLES_PER_QUERY cfg_one = 1" and pages: "MAX_PAGES_PER_QUERY cfg_one = 3"
    by (simp_all add: cfg_one_def)
  have today: "today_naver world_aerzte = ascii ''2026-01-05''"
    by (simp add: world_aerzte_def)
  have get1: "\<And>u st. get cfg_one world_aerzte u st =
     (Inr (Some soup_aerzte), st\<lparr>n_get := Suc (n_get st), trace := trace st @ [Get u]\<rparr>)"
    by (simp add: get_def cfg_one_def world_aerzte_def upt_1_4 Let_def)
  have "fst (naver_pages cfg_one world_aerzte (ascii ''2026-01-05'') (ascii ''Arzt'')
               [0..<MAX_PAGES_PER_QUERY cfg_one] [] 0 init) =
        Inr ([article_aerzte_page], 1)"
    by (simp add: pages upt_0_3 get1 parse_soup_aerzte cap Let_def)
  then obtain st' where eq:
    "naver_pages cfg_one world_aerzte (ascii ''2026-01-05'') (ascii ''Arzt'')
               [0..<MAX_PAGES_PER_QUERY cfg_one] [] 0 init =
        (Inr ([article_aerzte_page], 1), st')"
    by (metis prod.collapse)
  have "naver_queries cfg_one world_aerzte (ascii ''2026-01-05'') [ascii ''Arzt''] [] init =
        (Inr [article_aerzte_page], sleep world_aerzte st')"
    by (simp only: naver_queries.simps eq) simp
  then show ?thesis
    by (simp add: collect_naver_news_def today)
qed

lemma collect_google_aerzte:
  "\<exists>st2. collect_google_news cfg_one world_aerzte [ascii ''Arzt''] st = ([article_aerzte_feed], st2)"
proof -
  have f: "feedparser world_aerzte (n_feed st) (GoogleUrl (ascii ''Arzt'')) = Feed [entry_aerzte]"
    and t: "today_google world_aerzte = ascii ''2026-01-05''"
    by (simp_all add: world_aerzte_def)
  show ?thesis
    by (simp add: collect_google_news_def f t google_article_aerzte cfg_one_def Let_def)
qed

lemma collect_all_aerzte:
  "fst (collect_all_news cfg_one world_aerzte [ascii ''Arzt''] init) = Inr [article_aerzte_page]"
proof -
  obtain st' where e: "collect_naver_news cfg_one world_aerzte [ascii ''Arzt''] init =
     (Inr [article_aerzte_page], st')"
    using collect_naver_aerzte by blast
  obtain st2 where g:
    "collect_google_news cfg_one world_aerzte [ascii ''Arzt''] st' = ([article_aerzte_feed], st2)"
    using collect_google_aerzte by blast
  have t: "tolower world_aerzte = latin1_tolower"
    by (simp add: world_aerzte_def)
  have d: "dedup latin1_tolower [article_aerzte_page, article_aerzte_feed] = [article_aerzte_page]"
    by (simp add: dedup_def dedup_key_def article_aerzte_page_def article_aerzte_feed_def
          strip_def lower_latin1 latin1_lower_cp_def isspace_def ascii_def Let_def)
  show ?thesis
    by (simp add: collect_all_news_def e g t d Let_def)
qed

theorem emitted_articles_invariants_witness:
  "fst (collect_all_news cfg_cap world_two_items [ascii ''flu''] init) =
     Inr [article_flu, article_cold] \<and>
   strip (title article_flu) \<noteq> [] \<and> strip (title article_cold) \<noteq> [] \<and>
   source article_flu = naver \<and>
   distinct (map (dedup_key (tolower world_two_items)) [article_flu, article_cold]) \<and>
   fst (collect_all_news cfg_one world_aerzte [ascii ''Arzt''] init) =
     Inr [article_aerzte_page] \<and>
   strip (title article_aerzte_page) \<noteq> [] \<and>
   source article_aerzte_page = naver"
  using emitted_articles_invariants [of cfg_cap world_two_items "[ascii ''flu'']" init
          "[article_flu, article_cold]"]
        emitted_articles_invariants [of cfg_one world_aerzte "[ascii ''Arzt'']" init
          "[article_aerzte_page]"]
        collect_all_two_items collect_all_aerzte
  by (simp add: article_flu_def article_aerzte_page_def)

section \<open>Failures that do not abort the run\<close>

lemma get_attempts_no_raise:
  "\<forall>n u. http w n u \<noteq> OtherError \<Longrightarrow>
   \<exists>r st'. get_attempts cfg w u attempts st = (Inr r, st')"
proof (induction attempts arbitrary: st)
  case Nil
  then show ?case by simp
next
  case (Cons a attempts)
  show ?case
  proof (cases "http w (n_get st) u")
    case (Response resp)
    then show ?thesis by (simp add: Let_def)
  next
    case RequestException
    then show ?thesis using Cons.IH[OF Cons.prems] by (simp add: Let_def)
  next
    case OtherError
    then show ?thesis using Cons.prems by simp
  qed
qed

lemma naver_pages_no_raise:
  "\<forall>n u. http w n u \<noteq> OtherError \<Longrightarrow>
   \<exists>p st'. naver_pages cfg w today q pages articles count st = (Inr p, st')"
proof (induction pages arbitrary: articles count st)
  case Nil
  then show ?case by simp
next
  case (Cons page pages)
  let ?u = "NaverUrl q (page * 10 + 1)"
  obtain r st1 where g: "get cfg w ?u st = (Inr r, st1)"
    using get_attempts_no_raise[OF Cons.prems] unfolding get_def by blast
  show ?case
  proof (cases r)
    case None
    then show ?thesis using g by (simp add: Let_def)
  next
    case (Some resp)
    let ?items = "parse_naver_page resp q today"
    obtain p st' where
      "naver_pages cfg w today q pages (articles @ ?items) (count + length ?items) (sleep w st1) =
         (Inr p, st')"
      using Cons.IH[OF Cons.prems] by blast
    then show ?thesis using g Some by (simp add: Let_def)
  qed
qed

lemma naver_queries_no_raise:
  "\<forall>n u. http w n u \<noteq> OtherError \<Longrightarrow>
   \<exists>arts st'. naver_queries cfg w today qs articles st = (Inr arts, st')"
proof (induction qs arbitrary: articles st)
  case Nil
  then show ?case by simp
next
  case (Cons q qs)
  obtain p st1 where np:
    "naver_pages cfg w today q [0..<MAX_PAGES_PER_QUERY cfg] articles 0 st = (Inr p, st1)"
    using naver_pages_no_raise[OF Cons.prems] by blast
  obtain articles1 count where p: "p = (articles1, count)" by (cases p)
  obtain arts st' where
    "naver_queries cfg w today qs articles1 (sleep w st1) = (Inr arts, st')"
    using Cons.IH[OF Cons.prems] by blast
  then show ?case using np p by simp
qed

lemma collect_all_news_no_raise:
  assumes "\<forall>n u. http w n u \<noteq> OtherError"
  shows "\<exists>arts st'. collect_all_news cfg w qs st = (Inr arts, st')"
proof -
  obtain naver' st1 where n: "collect_naver_news cfg w qs st = (Inr naver', st1)"
    using naver_queries_no_raise[OF assms] unfolding collect_naver_news_def by blast
  obtain g st2 where g: "collect_google_news cfg w qs st1 = (g, st2)"
    by (cases "collect_google_news cfg w qs st1")
  show ?thesis using n g by (simp add: collect_all_news_def Let_def)
qed

text \<open>
  Claim C8. The first step of \<open>main\<close> exits with status 1 exactly when the entry point
  returns the empty list. Whatever requests fail with \<open>RequestException\<close> and whatever
  feed retrievals raise, the entry point returns a list to its caller, and \<open>main\<close> either
  exits with status 1 or goes on with a non-empty list.
\<close>

theorem only_empty_result_is_fatal:
  "(main_collect cfg w qs st = Exit 1 \<longleftrightarrow> fst (collect_all_news cfg w qs st) = Inr []) \<and>
   ((\<forall>n u. http w n u \<noteq> OtherError) \<longrightarrow>
      (\<exists>arts st'. collect_all_news cfg w qs st = (Inr arts, st')) \<and>
      (main_collect cfg w qs st = Exit 1 \<or>
       (\<exists>arts. arts \<noteq> [] \<and> main_collect cfg w qs st = Proceed arts)))"
proof (intro conjI impI)
  show "main_collect cfg w qs st = Exit 1 \<longleftrightarrow> fst (collect_all_news cfg w qs st) = Inr []"
    by (auto simp add: main_collect_def split: sum.splits)
next
  assume h: "\<forall>n u. http w n u \<noteq> OtherError"
  then obtain arts st' where c: "collect_all_news cfg w qs st = (Inr arts, st')"
    using collect_all_news_no_raise by blast
  then show "\<exists>arts st'. collect_all_news cfg w qs st = (Inr arts, st')" by blast
  show "main_collect cfg w qs st = Exit 1 \<or>
       (\<exists>arts. arts \<noteq> [] \<and> main_collect cfg w qs st = Proceed arts)"
    using c by (simp add: main_collect_def)
qed

lemma get_world_feed:
  "get cfg_retry world_feed u init =
     (Inr None, \<lparr>n_get = 3, n_feed = 0, n_rand = 0,
                 trace = [Get u, SleepBackoff 2, Get u, SleepBackoff 4, Get u]\<rparr>)"
  by (simp add: get_def cfg_retry_def world_feed_def init_def upt_1_4 Let_def)

lemma collect_naver_first_page_fails:
  assumes "get cfg_retry w (NaverUrl q 1) init = (Inr None, st1)"
  shows "collect_naver_news cfg_retry w [q] init = (Inr [], sleep w st1)"
proof -
  have p: "MAX_PAGES_PER_QUERY cfg_retry = 3" by (simp add: cfg_retry_def)
  have "naver_pages cfg_retry w (today_naver w) q [0, Suc 0, 2] [] 0 init = (Inr ([], 0), st1)"
    using assms by (simp add: Let_def)
  then show ?thesis
    by (simp add: collect_naver_news_def p upt_0_3 del: naver_pages.simps)
qed

lemma collect_all_world_down:
  "fst (collect_all_news cfg_retry world_down [ascii ''flu''] init) = Inr []"
proof -
  have f: "\<And>n u. feedparser world_down n u = FeedException"
    by (simp add: world_down_def)
  have g: "\<And>st. \<exists>st2. collect_google_news cfg_retry world_down [ascii ''flu''] st = ([], st2)"
    by (simp add: collect_google_news_def f Let_def)
  obtain st2 where
    "collect_google_news cfg_retry world_down [ascii ''flu'']
       (sleep world_down
         \<lparr>n_get = 3, n_feed = 0, n_rand = 0,
          trace = [Get (NaverUrl (ascii ''flu'') 1), SleepBackoff 2,
                   Get (NaverUrl (ascii ''flu'') 1), SleepBackoff 4,
                   Get (NaverUrl (ascii ''flu'') 1)]\<rparr>) = ([], st2)"
    using g by blast
  then show ?thesis
    using collect_naver_first_page_fails[OF get_world_down, of "ascii ''flu''"]
    by (simp add: collect_all_news_def dedup_def Let_def)
qed

lemma collect_all_world_feed:
  "fst (collect_all_news cfg_retry world_feed [ascii '' flu''] init) = Inr [article_suffix]"
proof -
  have t: "tolower world_feed = latin1_tolower"
    by (simp add: world_feed_def)
  have d: "dedup latin1_tolower [article_suffix] = [article_suffix]"
    by (simp add: dedup_def dedup_key_def article_suffix_def strip_def lower_latin1
          latin1_lower_cp_def isspace_def ascii_def Let_def)
  show ?thesis
    using collect_naver_first_page_fails[OF get_world_feed]
    by (simp add: collect_all_news_def collect_google_feed t d Let_def)
qed

theorem only_empty_result_is_fatal_witness:
  "fst (collect_all_news cfg_retry world_down [ascii ''flu''] init) = Inr [] \<and>
   main_collect cfg_retry world_down [ascii ''flu''] init = Exit 1 \<and>
   fst (collect_all_news cfg_retry world_feed [ascii '' flu''] init) = Inr [article_suffix] \<and>
   main_collect cfg_retry world_feed [ascii '' flu''] init = Proceed [article_suffix]"
proof -
  have a: "\<forall>n u. http world_down n u \<noteq> OtherError"
    and b: "\<forall>n u. http world_feed n u \<noteq> OtherError"
    by (simp_all add: world_down_def world_feed_def)
  have 1: "main_collect cfg_retry world_down [ascii ''flu''] init = Exit 1"
    using only_empty_result_is_fatal [of cfg_retry world_down "[ascii ''flu'']" init] a
          collect_all_world_down
    by blast
  have 2: "main_collect cfg_retry world_feed [ascii '' flu''] init = Proceed [article_suffix]"
    using collect_all_world_feed by (simp add: main_collect_def)
  have "\<exists>arts st'. collect_all_news cfg_retry world_feed [ascii '' flu''] init = (Inr arts, st')"
    using only_empty_result_is_fatal [of cfg_retry world_feed "[ascii '' flu'']" init] b
    by blast
  with 1 2 collect_all_world_down collect_all_world_feed show ?thesis by blast
qed

section \<open>The random delays do not reach the result\<close>

lemma same_calls_sleep: "same_calls st1 st2 \<Longrightarrow> same_calls (sleep w1 st1) (sleep w2 st2)"
  by (simp add: same_calls_def sleep_def)

lemma get_attempts_same:
  "http w1 = http w2 \<Longrightarrow> same_calls st1 st2 \<Longrightarrow>
   fst (get_attempts cfg w1 u attempts st1) = fst (get_attempts cfg w2 u attempts st2) \<and>
   same_calls (snd (get_attempts cfg w1 u attempts st1)) (snd (get_attempts cfg w2 u attempts st2))"
proof (induction attempts arbitrary: st1 st2)
  case Nil
  then show ?case by simp
next
  case (Cons a attempts)
  have n: "n_get st1 = n_get st2" using Cons.prems(2) by (simp add: same_calls_def)
  have o: "http w1 (n_get st1) u = http w2 (n_get st2) u" using Cons.prems(1) n by simp
  show ?case
  proof (cases "http w2 (n_get st2) u")
    case (Response resp)
    then show ?thesis using o Cons.prems(2) by (simp add: Let_def same_calls_def)
  next
    case OtherError
    then show ?thesis using o Cons.prems(2) by (simp add: Let_def same_calls_def)
  next
    case RequestException
    let ?s1 = "st1\<lparr>n_get := Suc (n_get st1), trace := trace st1 @ [Get u]\<rparr>"
    let ?s2 = "st2\<lparr>n_get := Suc (n_get st2), trace := trace st2 @ [Get u]\<rparr>"
    let ?t1 = "if a < MAX_RETRIES cfg then ?s1\<lparr>trace := trace ?s1 @ [SleepBackoff (2 ^ a)]\<rparr> else ?s1"
    let ?t2 = "if a < MAX_RETRIES cfg then ?s2\<lparr>trace := trace ?s2 @ [SleepBackoff (2 ^ a)]\<rparr> else ?s2"
    have sc: "same_calls ?t1 ?t2" using Cons.prems(2) by (simp add: same_calls_def)
    have e1: "get_attempts cfg w1 u (a # attempts) st1 = get_attempts cfg w1 u attempts ?t1"
      using RequestException o by (simp add: Let_def)
    have e2: "get_attempts cfg w2 u (a # attempts) st2 = get_attempts cfg w2 u attempts ?t2"
      using RequestException by (simp add: Let_def)
    show ?thesis unfolding e1 e2 by (rule Cons.IH[OF Cons.prems(1) sc])
  qed
qed

lemma naver_pages_same:
  "http w1 = http w2 \<Longrightarrow> same_calls st1 st2 \<Longrightarrow>
   fst (naver_pages cfg w1 today q pages articles count st1) =
     fst (naver_pages cfg w2 today q pages articles count st2) \<and>
   same_calls (snd (naver_pages cfg w1 today q pages articles count st1))
              (snd (naver_pages cfg w2 today q pages articles count st2))"
proof (induction pages arbitrary: articles count st1 st2)
  case Nil
  then show ?case by simp
next
  case (Cons page pages)
  let ?u = "NaverUrl q (page * 10 + 1)"
  obtain r1 s1 where g1: "get cfg w1 ?u st1 = (r1, s1)" by (cases "get cfg w1 ?u st1")
  obtain r2 s2 where g2: "get cfg w2 ?u st2 = (r2, s2)" by (cases "get cfg w2 ?u st2")
  have "fst (get cfg w1 ?u st1) = fst (get cfg w2 ?u st2) \<and>
        same_calls (snd (get cfg w1 ?u st1)) (snd (get cfg w2 ?u st2))"
    unfolding get_def by (rule get_attempts_same[OF Cons.prems])
  then have r: "r1 = r2" and sc: "same_calls s1 s2" using g1 g2 by simp_all
  show ?case
  proof (cases r2)
    case (Inl e)
    then show ?thesis using g1 g2 r sc by (simp add: Let_def)
  next
    case (Inr ro)
    show ?thesis
    proof (cases ro)
      case None
      then show ?thesis using g1 g2 r sc Inr by (simp add: Let_def)
    next
      case (Some resp)
      let ?items = "parse_naver_page resp q today"
      show ?thesis
      proof (cases "?items = [] \<or> count + length ?items \<ge> MAX_ARTICLES_PER_QUERY cfg")
        case True
        then show ?thesis using g1 g2 r sc Inr Some by (auto simp add: Let_def)
      next
        case False
        have e1: "naver_pages cfg w1 today q (page # pages) articles count st1 =
                  naver_pages cfg w1 today q pages (articles @ ?items) (count + length ?items)
                    (sleep w1 s1)"
          using g1 r Inr Some False by (simp add: Let_def)
        have e2: "naver_pages cfg w2 today q (page # pages) articles count st2 =
                  naver_pages cfg w2 today q pages (articles @ ?items) (count + length ?items)
                    (sleep w2 s2)"
          using g2 Inr Some False by (simp add: Let_def)
        show ?thesis unfolding e1 e2
          by (rule Cons.IH[OF Cons.prems(1) same_calls_sleep[OF sc]])
      qed
    qed
  qed
qed

lemma naver_queries_same:
  "http w1 = http w2 \<Longrightarrow> same_calls st1 st2 \<Longrightarrow>
   fst (naver_queries cfg w1 today qs articles st1) =
     fst (naver_queries cfg w2 today qs articles st2) \<and>
   same_calls (snd (naver_queries cfg w1 today qs articles st1))
              (snd (naver_queries cfg w2 today qs articles st2))"
proof (induction qs arbitrary: articles st1 st2)
  case Nil
  then show ?case by simp
next
  case (Cons q qs)
  let ?p1 = "naver_pages cfg w1 today q [0..<MAX_PAGES_PER_QUERY cfg] articles 0 st1"
  let ?p2 = "naver_pages cfg w2 today q [0..<MAX_PAGES_PER_QUERY cfg] articles 0 st2"
  obtain r1 s1 where p1: "?p1 = (r1, s1)" by (cases ?p1)
  obtain r2 s2 where p2: "?p2 = (r2, s2)" by (cases ?p2)
  have "fst ?p1 = fst ?p2 \<and> same_calls (snd ?p1) (snd ?p2)"
    by (rule naver_pages_same[OF Cons.prems])
  then have r: "r1 = r2" and sc: "same_calls s1 s2" using p1 p2 by simp_all
  show ?case
  proof (cases r2)
    case (Inl e)
    then show ?thesis using p1 p2 r sc by simp
  next
    case (Inr p)
    obtain articles1 c where p: "p = (articles1, c)" by (cases p)
    have e1: "naver_queries cfg w1 today (q # qs) articles st1 =
              naver_queries cfg w1 today qs articles1 (sleep w1 s1)"
      using p1 r Inr p by simp
    have e2: "naver_queries cfg w2 today (q # qs) articles st2 =
              naver_queries cfg w2 today qs articles1 (sleep w2 s2)"
      using p2 Inr p by simp
    show ?thesis unfolding e1 e2
      by (rule Cons.IH[OF Cons.prems(1) same_calls_sleep[OF sc]])
  qed
qed

lemma google_queries_same:
  "feedparser w1 = feedparser w2 \<Longrightarrow> same_calls st1 st2 \<Longrightarrow>
   fst (google_queries cfg w1 today qs articles st1) =
     fst (google_queries cfg w2 today qs articles st2) \<and>
   same_calls (snd (google_queries cfg w1 today qs articles st1))
              (snd (google_queries cfg w2 today qs articles st2))"
proof (induction qs arbitrary: articles st1 st2)
  case Nil
  then show ?case by simp
next
  case (Cons q qs)
  let ?u = "GoogleUrl q"
  let ?s1 = "st1\<lparr>n_feed := Suc (n_feed st1), trace := trace st1 @ [FeedParse ?u]\<rparr>"
  let ?s2 = "st2\<lparr>n_feed := Suc (n_feed st2), trace := trace st2 @ [FeedParse ?u]\<rparr>"
  have n: "n_feed st1 = n_feed st2" using Cons.prems(2) by (simp add: same_calls_def)
  have o: "feedparser w1 (n_feed st1) ?u = feedparser w2 (n_feed st2) ?u"
    using Cons.prems(1) n by simp
  have sc: "same_calls (sleep w1 ?s1) (sleep w2 ?s2)"
    using Cons.prems(2) by (simp add: same_calls_def sleep_def)
  show ?case
  proof (cases "feedparser w2 (n_feed st2) ?u")
    case FeedException
    have e1: "google_queries cfg w1 today (q # qs) articles st1 =
              google_queries cfg w1 today qs articles (sleep w1 ?s1)"
      using FeedException o by (simp add: Let_def)
    have e2: "google_queries cfg w2 today (q # qs) articles st2 =
              google_queries cfg w2 today qs articles (sleep w2 ?s2)"
      using FeedException by (simp add: Let_def)
    show ?thesis unfolding e1 e2 by (rule Cons.IH[OF Cons.prems(1) sc])
  next
    case (Feed entries)
    let ?a = "google_entries cfg today q entries articles 0"
    have e1: "google_queries cfg w1 today (q # qs) articles st1 =
              google_queries cfg w1 today qs ?a (sleep w1 ?s1)"
      using Feed o by (simp add: Let_def)
    have e2: "google_queries cfg w2 today (q # qs) articles st2 =
              google_queries cfg w2 today qs ?a (sleep w2 ?s2)"
      using Feed by (simp add: Let_def)
    show ?thesis unfolding e1 e2 by (rule Cons.IH[OF Cons.prems(1) sc])
  qed
qed

lemma collect_all_news_same:
  assumes "http w1 = http w2" "feedparser w1 = feedparser w2"
    "today_naver w1 = today_naver w2" "today_google w1 = today_google w2"
    "tolower w1 = tolower w2"
  shows "fst (collect_all_news cfg w1 qs st) = fst (collect_all_news cfg w2 qs st)"
proof -
  let ?n1 = "collect_naver_news cfg w1 qs st"
  let ?n2 = "collect_naver_news cfg w2 qs st"
  obtain r1 s1 where n1: "?n1 = (r1, s1)" by (cases ?n1)
  obtain r2 s2 where n2: "?n2 = (r2, s2)" by (cases ?n2)
  have sc0: "same_calls st st" by (simp add: same_calls_def)
  have "fst ?n1 = fst ?n2 \<and> same_calls (snd ?n1) (snd ?n2)"
    unfolding collect_naver_news_def assms(3)
    by (rule naver_queries_same[OF assms(1) sc0])
  then have r: "r1 = r2" and sc: "same_calls s1 s2" using n1 n2 by simp_all
  have g: "fst (collect_google_news cfg w1 qs s1) = fst (collect_google_news cfg w2 qs s2)"
    unfolding collect_google_news_def assms(4)
    using google_queries_same[OF assms(2) sc] by blast
  show ?thesis
  proof (cases r2)
    case (Inl e)
    then show ?thesis using n1 n2 r by (simp add: collect_all_news_def)
  next
    case (Inr naver')
    then show ?thesis using n1 n2 r g assms(5)
      by (auto simp add: collect_all_news_def Let_def split: prod.splits)
  qed
qed

text \<open>
  Claim C10. With the answers of the providers and the dates fixed, the result of the
  entry point is the same whatever values \<open>random.uniform\<close> draws for the delays.
\<close>

theorem delays_do_not_change_output:
  "fst (collect_all_news cfg (w\<lparr>uniform := delays1\<rparr>) qs st) =
   fst (collect_all_news cfg (w\<lparr>uniform := delays2\<rparr>) qs st)"
  by (rule collect_all_news_same) simp_all

end
